theory Spec2Isabelle
  imports Main
begin

section \<open>Python strings\<close>

text \<open>
  The summarizer is Python; its text is a \<open>str\<close>, a sequence of code points. The model
  covers texts over the code points 0 to 255 (Latin-1), one \<^typ>\<open>char\<close> per code point,
  so that \<open>length\<close> is Python's \<open>len\<close>. On that range the character classes below are
  the ones CPython uses for \<open>str.isspace\<close>, \<open>\s\<close>, \<open>\d\<close>, \<open>str.lower\<close> and
  \<open>re.IGNORECASE\<close>.
\<close>

definition code :: "char \<Rightarrow> nat" where
  \<comment> \<open>\<open>ord(c)\<close>\<close>
  "code c = of_char c"

definition py_isspace :: "char \<Rightarrow> bool" where
  \<comment> \<open>\<open>str.isspace\<close> and the class \<open>\s\<close> of a \<open>str\<close> pattern: tab to carriage return,
      the four separators 0x1C to 0x1F, space, NEL and the no-break space.\<close>
  "py_isspace c = ((9 \<le> code c \<and> code c \<le> 13) \<or> (28 \<le> code c \<and> code c \<le> 32)
     \<or> code c = 133 \<or> code c = 160)"

definition py_isdigit :: "char \<Rightarrow> bool" where
  \<comment> \<open>the class \<open>\d\<close>: the decimal digits; below 256 these are \<open>0\<close> to \<open>9\<close>\<close>
  "py_isdigit c = (48 \<le> code c \<and> code c \<le> 57)"

definition py_isupper :: "char \<Rightarrow> bool" where
  \<comment> \<open>the characters that \<open>str.lower\<close> changes: \<open>A\<close> to \<open>Z\<close> and 0xC0 to 0xDE without
      the multiplication sign 0xD7\<close>
  "py_isupper c = ((65 \<le> code c \<and> code c \<le> 90)
     \<or> (192 \<le> code c \<and> code c \<le> 222 \<and> code c \<noteq> 215))"

definition py_islower :: "char \<Rightarrow> bool" where
  \<comment> \<open>the characters with an upper-case partner below 256: \<open>a\<close> to \<open>z\<close> and 0xE0 to
      0xFE without the division sign 0xF7\<close>
  "py_islower c = ((97 \<le> code c \<and> code c \<le> 122)
     \<or> (224 \<le> code c \<and> code c \<le> 254 \<and> code c \<noteq> 247))"

definition lower_char :: "char \<Rightarrow> char" where
  \<comment> \<open>an upper-case character and its lower-case partner are 32 apart\<close>
  "lower_char c = (if py_isupper c then char_of (code c + 32) else c)"

definition upper_char :: "char \<Rightarrow> char" where
  "upper_char c = (if py_islower c then char_of (code c - 32) else c)"

definition py_lower :: "string \<Rightarrow> string" where
  \<comment> \<open>\<open>s.lower()\<close>\<close>
  "py_lower s = map lower_char s"

fun title_from :: "bool \<Rightarrow> string \<Rightarrow> string" where
  "title_from prev [] = []"
| "title_from prev (c # cs) =
     (if prev then lower_char c else upper_char c)
       # title_from (py_isupper c \<or> py_islower c) cs"

definition py_title :: "string \<Rightarrow> string" where
  \<comment> \<open>\<open>s.title()\<close>: a letter that follows a letter is lowered, any other letter is raised.
      The source calls it on its own vocabulary only, lower-case English words; the five
      Latin-1 letters whose title case lies beyond 0xFF do not occur there and are left
      as they are.\<close>
  "py_title s = title_from False s"

definition py_lstrip :: "string \<Rightarrow> string" where
  "py_lstrip s = dropWhile py_isspace s"

definition py_rstrip :: "string \<Rightarrow> string" where
  "py_rstrip s = rev (dropWhile py_isspace (rev s))"

definition py_strip :: "string \<Rightarrow> string" where
  \<comment> \<open>\<open>s.strip()\<close>\<close>
  "py_strip s = py_rstrip (py_lstrip s)"

fun starts_with :: "string \<Rightarrow> string \<Rightarrow> bool" where
  "starts_with [] s = True"
| "starts_with (a # as) [] = False"
| "starts_with (a # as) (c # cs) = (a = c \<and> starts_with as cs)"

fun py_in :: "string \<Rightarrow> string \<Rightarrow> bool" where
  \<comment> \<open>\<open>sub in s\<close>: \<open>sub\<close> occurs in \<open>s\<close> as a contiguous run\<close>
  "py_in sub [] = (sub = [])"
| "py_in sub (c # cs) = (starts_with sub (c # cs) \<or> py_in sub cs)"

fun py_split :: "char \<Rightarrow> string \<Rightarrow> string list" where
  \<comment> \<open>\<open>s.split(sep)\<close> for a separator of one character\<close>
  "py_split sep [] = [[]]"
| "py_split sep (c # cs) =
     (if c = sep then [] # py_split sep cs
      else (case py_split sep cs of [] \<Rightarrow> [[c]] | w # ws \<Rightarrow> (c # w) # ws))"

datatype py_error = ValueError | IndexError

definition int_isspace :: "char \<Rightarrow> bool" where
  \<comment> \<open>the white space that \<open>int\<close> accepts around a number\<close>
  "int_isspace c = ((9 \<le> code c \<and> code c \<le> 13) \<or> code c = 32 \<or> code c = 133 \<or> code c = 160)"

fun digits_ok :: "bool \<Rightarrow> string \<Rightarrow> bool" where
  \<comment> \<open>digits, with single underscores between digits only; the flag tells whether the
      previous character was a digit\<close>
  "digits_ok prev [] = prev"
| "digits_ok prev (c # cs) =
     (if py_isdigit c then digits_ok True cs
      else if c = CHR ''_'' then prev \<and> digits_ok False cs
      else False)"

definition digit_value :: "string \<Rightarrow> int" where
  "digit_value ds = foldl (\<lambda>a c. 10 * a + int (code c - 48)) 0 ds"

text \<open>
  \<open>int\<close> reads one piece of interpreter state: the limit on the number of digits it
  converts, \<open>sys.get_int_max_str_digits()\<close>. A program can change it at run time with
  \<open>sys.set_int_max_str_digits\<close>; it is 4300 when the interpreter starts, 0 switches the
  limit off, and a number of at most 640 digits is never refused. The model carries that
  state as a record, given to every function that calls \<open>int\<close>.
\<close>

record interpreter =
  int_max_str_digits :: nat

definition default_interpreter :: interpreter where
  \<comment> \<open>\<open>sys.int_info.default_max_str_digits\<close>\<close>
  "default_interpreter = \<lparr>int_max_str_digits = 4300\<rparr>"

definition str_digits_check_threshold :: nat where
  \<comment> \<open>\<open>sys.int_info.str_digits_check_threshold\<close>\<close>
  "str_digits_check_threshold = 640"

definition exceeds_limit :: "interpreter \<Rightarrow> nat \<Rightarrow> bool" where
  "exceeds_limit interp n =
     (str_digits_check_threshold < n \<and> 0 < int_max_str_digits interp
      \<and> int_max_str_digits interp < n)"

definition py_int :: "interpreter \<Rightarrow> string \<Rightarrow> py_error + int" where
  \<comment> \<open>\<open>int(s)\<close> of a \<open>str\<close>, base ten: surrounding white space, an optional sign, then
      digits. It raises ValueError on anything else, and on a number with more digits
      than the interpreter's limit allows (CPython since 3.11, and the security releases
      of 3.7 to 3.10).\<close>
  "py_int interp s =
     (let t = rev (dropWhile int_isspace (rev (dropWhile int_isspace s)));
          body = (case t of [] \<Rightarrow> [] | c # cs \<Rightarrow> if c = CHR ''+'' \<or> c = CHR ''-'' then cs else t);
          ds = filter py_isdigit body
      in if \<not> digits_ok False body then Inl ValueError
         else if exceeds_limit interp (length ds) then Inl ValueError
         else if starts_with ''-'' t then Inr (- digit_value ds)
         else Inr (digit_value ds))"

section \<open>Regular expressions: the module \<open>re\<close>\<close>

text \<open>
  The patterns of the source use literals, character classes, \<open>.\<close>, \<open>^\<close>,
  concatenation, alternation, the greedy \<open>*\<close>, \<open>+\<close>, \<open>?\<close>, the lazy \<open>*?\<close>, \<open>+?\<close>,
  capturing groups and one lookahead. A pattern is a value of \<open>regex\<close>; \<open>rmatch\<close> is
  the backtracking matcher of \<open>re\<close>: it lists every way the pattern matches at a
  position, in the order in which \<open>re\<close> tries them, so the head of the list is the match
  that \<open>re\<close> reports.
\<close>

datatype citem = Ch char | Rng char char | Space | Digit

datatype regex =
    Eps
  | Sym "citem list"
  | Dot
  | Bol
  | Seq regex regex
  | Alt regex regex
  | Star regex
  | LStar regex
  | Grp nat regex
  | Look regex

record flags =
  ignorecase :: bool
  dotall :: bool

fun item_has :: "citem \<Rightarrow> char \<Rightarrow> bool" where
  "item_has (Ch a) c = (c = a)"
| "item_has (Rng a b) c = (code a \<le> code c \<and> code c \<le> code b)"
| "item_has Space c = py_isspace c"
| "item_has Digit c = py_isdigit c"

definition sym_ok :: "flags \<Rightarrow> citem list \<Rightarrow> char \<Rightarrow> bool" where
  \<comment> \<open>under \<open>re.IGNORECASE\<close> a character matches when it or its partner of the other case
      is in the class\<close>
  "sym_ok fl its c = (\<exists>it \<in> set its. item_has it c
      \<or> (ignorecase fl \<and> (item_has it (lower_char c) \<or> item_has it (upper_char c))))"

type_synonym groups = "nat \<rightharpoonup> string"

type_synonym mstate = "nat \<times> string \<times> groups"
  \<comment> \<open>position in the text, the text from there on, the groups captured so far\<close>

definition advances :: "mstate \<Rightarrow> mstate \<Rightarrow> bool" where
  "advances st st' = (length (fst (snd st')) < length (fst (snd st)))"

function rmatch :: "flags \<Rightarrow> regex \<Rightarrow> mstate \<Rightarrow> mstate list" where
  "rmatch fl Eps st = [st]"
| "rmatch fl (Sym its) (p, s, g) =
     (case s of [] \<Rightarrow> [] | c # cs \<Rightarrow> if sym_ok fl its c then [(p + 1, cs, g)] else [])"
| "rmatch fl Dot (p, s, g) =
     (case s of [] \<Rightarrow> []
      | c # cs \<Rightarrow> if dotall fl \<or> c \<noteq> CHR 0x0A then [(p + 1, cs, g)] else [])"
| "rmatch fl Bol (p, s, g) = (if p = 0 then [(p, s, g)] else [])"
| "rmatch fl (Seq r1 r2) st = concat (map (rmatch fl r2) (rmatch fl r1 st))"
| "rmatch fl (Alt r1 r2) st = rmatch fl r1 st @ rmatch fl r2 st"
| "rmatch fl (Star r) st =
     concat (map (rmatch fl (Star r)) (filter (advances st) (rmatch fl r st))) @ [st]"
| "rmatch fl (LStar r) st =
     st # concat (map (rmatch fl (LStar r)) (filter (advances st) (rmatch fl r st)))"
| "rmatch fl (Grp k r) (p, s, g) =
     map (\<lambda>(p', s', g'). (p', s', g'(k \<mapsto> take (p' - p) s))) (rmatch fl r (p, s, g))"
| "rmatch fl (Look r) st = (if rmatch fl r st = [] then [] else [st])"
  by pat_completeness auto
termination
  by (relation "measures [\<lambda>(fl, r, st). size r, \<lambda>(fl, r, st). length (fst (snd st))]")
     (auto simp: advances_def)

declare rmatch.simps(7,8) [simp del]

text \<open>
  A repetition goes round again only after an iteration that consumed text, as in
  \<open>re\<close>; every repeated sub-pattern of the source consumes at least one character, so
  there the filter \<open>advances\<close> keeps everything.
\<close>

definition Lit :: "char \<Rightarrow> regex" where
  "Lit c = Sym [Ch c]"

definition Cat :: "regex list \<Rightarrow> regex" where
  "Cat rs = foldr Seq rs Eps"

definition Alts :: "regex list \<Rightarrow> regex" where
  \<comment> \<open>\<open>r1|r2|...\<close>, tried from the left; the empty class at the end matches nothing\<close>
  "Alts rs = foldr Alt rs (Sym [])"

definition Str :: "string \<Rightarrow> regex" where
  "Str s = Cat (map Lit s)"

definition Plus :: "regex \<Rightarrow> regex" where
  "Plus r = Seq r (Star r)"

definition LPlus :: "regex \<Rightarrow> regex" where
  "LPlus r = Seq r (LStar r)"

definition Opt :: "regex \<Rightarrow> regex" where
  "Opt r = Alt r Eps"

datatype pymatch = Match (m_start: nat) (m_end: nat) (m_groups: groups)

definition group :: "pymatch \<Rightarrow> nat \<Rightarrow> string" where
  \<comment> \<open>\<open>m.group(k)\<close>. A group that took no part in the match gives None in Python; in every
      pattern of the source the groups lie on every path through the pattern, so they
      always take part (lemma \<open>rmatch_sets_group\<close>), and the model reads the empty string
      in the case that cannot arise.\<close>
  "group m k = (case m_groups m k of None \<Rightarrow> [] | Some w \<Rightarrow> w)"

fun search_from :: "flags \<Rightarrow> regex \<Rightarrow> nat \<Rightarrow> string \<Rightarrow> (nat \<times> mstate) option" where
  \<comment> \<open>the scan of \<open>re.search\<close>: the first position, from the left, where the pattern
      matches, with the first match there\<close>
  "search_from fl r p [] =
     (case rmatch fl r (p, [], Map.empty) of m # _ \<Rightarrow> Some (p, m) | [] \<Rightarrow> None)"
| "search_from fl r p (c # cs) =
     (case rmatch fl r (p, c # cs, Map.empty) of
        m # _ \<Rightarrow> Some (p, m)
      | [] \<Rightarrow> search_from fl r (p + 1) cs)"

definition search_adv :: "flags \<Rightarrow> regex \<Rightarrow> nat \<Rightarrow> string \<Rightarrow> (nat \<times> mstate) option" where
  \<comment> \<open>the scan right after an empty match: at the first position only a match that is
      not empty counts\<close>
  "search_adv fl r p s =
     (case filter (\<lambda>(p', s', g'). p' \<noteq> p) (rmatch fl r (p, s, Map.empty)) of
        m # _ \<Rightarrow> Some (p, m)
      | [] \<Rightarrow> (case s of [] \<Rightarrow> None | c # cs \<Rightarrow> search_from fl r (p + 1) cs))"

definition to_match :: "(nat \<times> mstate) option \<Rightarrow> pymatch option" where
  "to_match x = (case x of None \<Rightarrow> None | Some (b, e, s', g) \<Rightarrow> Some (Match b e g))"

definition re_search :: "flags \<Rightarrow> regex \<Rightarrow> string \<Rightarrow> pymatch option" where
  "re_search fl r text = to_match (search_from fl r 0 text)"

definition re_match :: "flags \<Rightarrow> regex \<Rightarrow> string \<Rightarrow> pymatch option" where
  \<comment> \<open>\<open>re.match\<close>: a match at the start of the text only\<close>
  "re_match fl r text =
     (case rmatch fl r (0, text, Map.empty) of [] \<Rightarrow> None | (e, s', g) # _ \<Rightarrow> Some (Match 0 e g))"

subsection \<open>What a match consumes\<close>

text \<open>
  A match leaves a suffix of the text it started on and moves on by as many characters
  as it consumed. The scan for all matches below terminates because of this.
\<close>

lemma rmatch_Star_mem:
  "x \<in> set (rmatch fl (Star r) st) \<longleftrightarrow>
     x = st \<or> (\<exists>y \<in> set (rmatch fl r st). advances st y \<and> x \<in> set (rmatch fl (Star r) y))"
  by (subst rmatch.simps(7)) auto

lemma rmatch_LStar_mem:
  "x \<in> set (rmatch fl (LStar r) st) \<longleftrightarrow>
     x = st \<or> (\<exists>y \<in> set (rmatch fl r st). advances st y \<and> x \<in> set (rmatch fl (LStar r) y))"
  by (subst rmatch.simps(8)) auto

lemma rmatch_shape:
  "(p', s', g') \<in> set (rmatch fl r (p, s, g)) \<Longrightarrow> \<exists>w. s = w @ s' \<and> p' = p + length w"
proof (induction fl r "(p, s, g)" arbitrary: p s g p' s' g' rule: rmatch.induct)
  case (1 fl) then show ?case by simp
next
  case (2 fl its) then show ?case by (auto split: list.splits if_splits)
next
  case (3 fl) then show ?case by (auto split: list.splits if_splits)
next
  case (4 fl) then show ?case by (auto split: if_splits)
next
  case (5 fl r1 r2)
  from 5(3) obtain p1 s1 g1 where a: "(p1, s1, g1) \<in> set (rmatch fl r1 (p, s, g))"
      and b: "(p', s', g') \<in> set (rmatch fl r2 (p1, s1, g1))" by auto
  from 5(1)[OF a] obtain w1 where w1: "s = w1 @ s1" "p1 = p + length w1" by blast
  from 5(2)[OF a b] obtain w2 where w2: "s1 = w2 @ s'" "p' = p1 + length w2" by blast
  show ?case using w1 w2 by (intro exI[of _ "w1 @ w2"]) simp
next
  case (6 fl r1 r2) then show ?case by auto
next
  case (7 fl r)
  show ?case
  proof (cases "(p', s', g') = (p, s, g)")
    case True then show ?thesis by simp
  next
    case False
    with 7(3) obtain p1 s1 g1 where a: "(p1, s1, g1) \<in> set (rmatch fl r (p, s, g))"
      and adv: "advances (p, s, g) (p1, s1, g1)"
      and b: "(p', s', g') \<in> set (rmatch fl (Star r) (p1, s1, g1))"
      by (subst (asm) rmatch_Star_mem) auto
    from 7(1)[OF a] obtain w1 where w1: "s = w1 @ s1" "p1 = p + length w1" by blast
    from a adv have "(p1, s1, g1) \<in> set (filter (advances (p, s, g)) (rmatch fl r (p, s, g)))" by simp
    from 7(2)[OF this b] obtain w2 where w2: "s1 = w2 @ s'" "p' = p1 + length w2" by blast
    show ?thesis using w1 w2 by (intro exI[of _ "w1 @ w2"]) simp
  qed
next
  case (8 fl r)
  show ?case
  proof (cases "(p', s', g') = (p, s, g)")
    case True then show ?thesis by simp
  next
    case False
    with 8(3) obtain p1 s1 g1 where a: "(p1, s1, g1) \<in> set (rmatch fl r (p, s, g))"
      and adv: "advances (p, s, g) (p1, s1, g1)"
      and b: "(p', s', g') \<in> set (rmatch fl (LStar r) (p1, s1, g1))"
      by (subst (asm) rmatch_LStar_mem) auto
    from 8(1)[OF a] obtain w1 where w1: "s = w1 @ s1" "p1 = p + length w1" by blast
    from a adv have "(p1, s1, g1) \<in> set (filter (advances (p, s, g)) (rmatch fl r (p, s, g)))" by simp
    from 8(2)[OF this b] obtain w2 where w2: "s1 = w2 @ s'" "p' = p1 + length w2" by blast
    show ?thesis using w1 w2 by (intro exI[of _ "w1 @ w2"]) simp
  qed
next
  case (9 fl k r)
  then show ?case by auto
next
  case (10 fl r)
  then show ?case by (auto split: if_splits)
qed

lemma search_from_shape:
  "search_from fl r p s = Some (b, e, s', g) \<Longrightarrow>
     \<exists>u w. s = u @ w @ s' \<and> b = p + length u \<and> e = b + length w"
proof (induction s arbitrary: p)
  case Nil
  then obtain ms where "rmatch fl r (p, [], Map.empty) = (e, s', g) # ms" and b: "b = p"
    by (auto split: list.splits)
  then have "(e, s', g) \<in> set (rmatch fl r (p, [], Map.empty))" by simp
  from rmatch_shape[OF this] b show ?case by auto
next
  case (Cons c cs)
  show ?case
  proof (cases "rmatch fl r (p, c # cs, Map.empty)")
    case Nil
    with Cons.prems have "search_from fl r (p + 1) cs = Some (b, e, s', g)" by simp
    from Cons.IH[OF this] obtain u w where "cs = u @ w @ s'" "b = p + 1 + length u" "e = b + length w"
      by blast
    then show ?thesis by (intro exI[of _ "c # u"] exI[of _ w]) simp
  next
    case (Cons m ms)
    with Cons.prems have m: "m = (e, s', g)" "b = p" by auto
    with Cons have "(e, s', g) \<in> set (rmatch fl r (p, c # cs, Map.empty))" by simp
    from rmatch_shape[OF this] obtain w where "c # cs = w @ s'" "e = p + length w" by blast
    with m show ?thesis by (intro exI[of _ "[]"] exI[of _ w]) simp
  qed
qed

lemma search_adv_shape:
  "search_adv fl r p s = Some (b, e, s', g) \<Longrightarrow>
     \<exists>u w. s = u @ w @ s' \<and> b = p + length u \<and> e = b + length w \<and> u @ w \<noteq> []"
proof (cases "filter (\<lambda>(p', s', g'). p' \<noteq> p) (rmatch fl r (p, s, Map.empty))")
  case Nil
  assume a: "search_adv fl r p s = Some (b, e, s', g)"
  with Nil obtain c cs where s: "s = c # cs" and "search_from fl r (p + 1) cs = Some (b, e, s', g)"
    by (cases s) (auto simp: search_adv_def)
  from search_from_shape[OF this(2)] obtain u w where
    "cs = u @ w @ s'" "b = p + 1 + length u" "e = b + length w" by blast
  with s show ?thesis by (intro exI[of _ "c # u"] exI[of _ w]) simp
next
  case (Cons m ms)
  assume a: "search_adv fl r p s = Some (b, e, s', g)"
  with Cons have m: "m = (e, s', g)" "b = p" by (auto simp: search_adv_def)
  have "m \<in> set (filter (\<lambda>(p', s', g'). p' \<noteq> p) (rmatch fl r (p, s, Map.empty)))"
    using Cons by simp
  with m have in_r: "(e, s', g) \<in> set (rmatch fl r (p, s, Map.empty))" and ne: "e \<noteq> p" by auto
  from rmatch_shape[OF in_r] obtain w where "s = w @ s'" "e = p + length w" by blast
  with m ne show ?thesis by (intro exI[of _ "[]"] exI[of _ w]) auto
qed

function scan :: "flags \<Rightarrow> regex \<Rightarrow> bool \<Rightarrow> nat \<Rightarrow> string \<Rightarrow> pymatch list" where
  "scan fl r adv p s =
     (case (if adv then search_adv fl r p s else search_from fl r p s) of
        None \<Rightarrow> []
      | Some (b, e, s', g) \<Rightarrow> Match b e g # scan fl r (e = b) e s')"
  by pat_completeness auto
termination
proof (relation "measures [\<lambda>(fl, r, adv, p, s). length s, \<lambda>(fl, r, adv, p, s). if adv then 0 else 1]",
       goal_cases)
  case 1
  then show ?case by simp
next
  case (2 fl r adv p s x2 b y e z s' g)
  show ?case
  proof (cases adv)
    case True
    with 2 have "search_adv fl r p s = Some (b, e, s', g)" by simp
    from search_adv_shape[OF this] show ?thesis by auto
  next
    case False
    with 2 have "search_from fl r p s = Some (b, e, s', g)" by simp
    from search_from_shape[OF this] show ?thesis using False by auto
  qed
qed

declare scan.simps [simp del]

definition re_finditer :: "flags \<Rightarrow> regex \<Rightarrow> string \<Rightarrow> pymatch list" where
  "re_finditer fl r text = scan fl r False 0 text"

definition re_findall :: "flags \<Rightarrow> regex \<Rightarrow> string \<Rightarrow> string list" where
  "re_findall fl r text = map (\<lambda>m. group m 1) (re_finditer fl r text)"

fun pieces :: "pymatch list \<Rightarrow> nat \<Rightarrow> string \<Rightarrow> string list" where
  "pieces [] p s = [s]"
| "pieces (m # ms) p s = take (m_start m - p) s # pieces ms (m_end m) (drop (m_end m - p) s)"

definition re_split :: "flags \<Rightarrow> regex \<Rightarrow> string \<Rightarrow> string list" where
  "re_split fl r text = pieces (re_finditer fl r text) 0 text"

fun join :: "string \<Rightarrow> string list \<Rightarrow> string" where
  "join sep [] = []"
| "join sep [w] = w"
| "join sep (w # ws) = w @ sep @ join sep ws"

definition re_sub :: "flags \<Rightarrow> regex \<Rightarrow> string \<Rightarrow> string \<Rightarrow> string" where
  "re_sub fl r repl text = join repl (re_split fl r text)"


section \<open>The summarizer\<close>

text \<open>
  The model of \<open>models/summarizer.py\<close>. An instance of the class holds two attributes,
  set once by the constructor: the linguistic parser and the summarization pipeline,
  each None when it could not be loaded. Every method takes the instance first, as in
  the source; the two methods that reach \<open>int\<close> take the interpreter state before it.
\<close>

typedecl spacy_language
typedecl summarization_pipeline

record MedicalReportSummarizer =
  nlp :: "spacy_language option"
  summarizer :: "summarization_pipeline option"

record PatientInfo =
  name :: string
  age :: string
  gender :: string
  mrn :: string
  dob :: string

type_synonym unicode = "nat list"
  \<comment> \<open>a \<open>str\<close> with characters beyond Latin-1, as the list of its code points\<close>

record MedicalSummary =
  patient_info :: PatientInfo
  chief_complaint :: string
  diagnosis :: "string list"
  medications :: "string list"
  vital_signs :: "string \<rightharpoonup> string"
  procedures :: "string list"
  allergies :: "string list"
  lab_results :: "string list"
  recommendations :: "string list"
  critical_flags :: "unicode list"

definition re_none :: flags where
  "re_none = \<lparr>ignorecase = False, dotall = False\<rparr>"

definition re_I :: flags where
  \<comment> \<open>\<open>re.IGNORECASE\<close>\<close>
  "re_I = \<lparr>ignorecase = True, dotall = False\<rparr>"

definition re_I_S :: flags where
  \<comment> \<open>\<open>re.IGNORECASE | re.DOTALL\<close>\<close>
  "re_I_S = \<lparr>ignorecase = True, dotall = True\<rparr>"

definition nl :: char where
  "nl = CHR 0x0A"

definition colon_space :: regex where
  \<comment> \<open>\<open>[:\s]\<close>\<close>
  "colon_space = Sym [Ch CHR '':'', Space]"

definition digit :: regex where
  \<comment> \<open>\<open>\d\<close>\<close>
  "digit = Sym [Digit]"

definition letter :: regex where
  \<comment> \<open>\<open>[A-Za-z]\<close>\<close>
  "letter = Sym [Rng CHR ''A'' CHR ''Z'', Rng CHR ''a'' CHR ''z'']"

fun first_search :: "flags \<Rightarrow> regex list \<Rightarrow> string \<Rightarrow> pymatch option" where
  \<comment> \<open>the loop \<open>for pattern in patterns: match = re.search(pattern, text, flags);
      if match: ...; break\<close>: the match of the first pattern that matches\<close>
  "first_search fl [] text = None"
| "first_search fl (r # rs) text =
     (case re_search fl r text of Some m \<Rightarrow> Some m | None \<Rightarrow> first_search fl rs text)"

subsection \<open>Patient information\<close>

definition name_patterns :: "regex list" where
  \<comment> \<open>\<open>Patient[:\s]+([A-Za-z\s,]+?)(?:\n|Age|DOB|MRN)\<close> and the same after \<open>Name\<close>\<close>
  "name_patterns =
     [Cat [Str ''Patient'', Plus colon_space,
           Grp 1 (LPlus (Sym [Rng CHR ''A'' CHR ''Z'', Rng CHR ''a'' CHR ''z'', Space, Ch CHR '',''])),
           Alts [Lit nl, Str ''Age'', Str ''DOB'', Str ''MRN'']],
      Cat [Str ''Name'', Plus colon_space,
           Grp 1 (LPlus (Sym [Rng CHR ''A'' CHR ''Z'', Rng CHR ''a'' CHR ''z'', Space, Ch CHR '',''])),
           Alts [Lit nl, Str ''Age'', Str ''DOB'', Str ''MRN'']]]"

definition age_pattern :: regex where
  \<comment> \<open>\<open>Age[:\s]+(\d+)\<close>\<close>
  "age_pattern = Cat [Str ''Age'', Plus colon_space, Grp 1 (Plus digit)]"

definition gender_pattern :: regex where
  \<comment> \<open>\<open>(?:Gender|Sex)[:\s]+(Male|Female|M|F)\<close>\<close>
  "gender_pattern =
     Cat [Alts [Str ''Gender'', Str ''Sex''], Plus colon_space,
          Grp 1 (Alts [Str ''Male'', Str ''Female'', Str ''M'', Str ''F''])]"

definition mrn_pattern :: regex where
  \<comment> \<open>\<open>MRN[:\s]+([A-Z0-9]+)\<close>\<close>
  "mrn_pattern =
     Cat [Str ''MRN'', Plus colon_space,
          Grp 1 (Plus (Sym [Rng CHR ''A'' CHR ''Z'', Rng CHR ''0'' CHR ''9'']))]"

definition extract_patient_info :: "MedicalReportSummarizer \<Rightarrow> string \<Rightarrow> PatientInfo" where
  "extract_patient_info self text =
     (let patient = \<lparr>name = [], age = [], gender = [], mrn = [], dob = []\<rparr>;
          patient = (case first_search re_I name_patterns text of
                       Some m \<Rightarrow> patient\<lparr>name := py_strip (group m 1)\<rparr>
                     | None \<Rightarrow> patient);
          patient = (case re_search re_I age_pattern text of
                       Some age_match \<Rightarrow> patient\<lparr>age := group age_match 1\<rparr>
                     | None \<Rightarrow> patient);
          patient = (case re_search re_I gender_pattern text of
                       Some gender_match \<Rightarrow> patient\<lparr>gender := group gender_match 1\<rparr>
                     | None \<Rightarrow> patient);
          patient = (case re_search re_I mrn_pattern text of
                       Some mrn_match \<Rightarrow> patient\<lparr>mrn := group mrn_match 1\<rparr>
                     | None \<Rightarrow> patient)
      in patient)"

subsection \<open>Chief complaint\<close>

definition chief_complaint_patterns :: "regex list" where
  \<comment> \<open>\<open>Chief Complaint[:\s]+(.*?)(?:\n\n|History of Present)\<close>,
      \<open>Presenting Problem[:\s]+(.*?)(?:\n\n|History)\<close>, \<open>CC[:\s]+(.*?)(?:\n\n|HPI)\<close>\<close>
  "chief_complaint_patterns =
     [Cat [Str ''Chief Complaint'', Plus colon_space, Grp 1 (LStar Dot),
           Alts [Str [nl, nl], Str ''History of Present'']],
      Cat [Str ''Presenting Problem'', Plus colon_space, Grp 1 (LStar Dot),
           Alts [Str [nl, nl], Str ''History'']],
      Cat [Str ''CC'', Plus colon_space, Grp 1 (LStar Dot),
           Alts [Str [nl, nl], Str ''HPI'']]]"

definition extract_chief_complaint :: "MedicalReportSummarizer \<Rightarrow> string \<Rightarrow> string" where
  "extract_chief_complaint self text =
     (case first_search re_I_S chief_complaint_patterns text of
        Some m \<Rightarrow> py_strip (group m 1)
      | None \<Rightarrow> [])"

subsection \<open>Diagnoses\<close>

text \<open>
  The source file stores its bullet and dash characters doubly encoded: the class
  written for "hyphen or bullet" holds the hyphen and the code points 0xE2, 0x20AC and
  0xA2, the one for "hyphen or dash" the hyphen and 0xE2, 0x20AC and 0x201C. The
  members beyond 0xFF match no character of a Latin-1 text and are left out.
\<close>

definition bullet :: regex where
  "bullet = Sym [Ch CHR ''-'', Ch (CHR 0xE2), Ch (CHR 0xA2)]"

definition item_split_pattern :: regex where
  \<comment> \<open>\<open>\n\s*\d+\.|\n\s*[-...]|\n(?=\d+\.)\<close>\<close>
  "item_split_pattern =
     Alts [Cat [Lit nl, Star (Sym [Space]), Plus digit, Lit CHR ''.''],
           Cat [Lit nl, Star (Sym [Space]), bullet],
           Cat [Lit nl, Look (Cat [Plus digit, Lit CHR ''.''])]]"

definition numbering_pattern :: regex where
  \<comment> \<open>\<open>^\d+\.\s*\<close>\<close>
  "numbering_pattern = Cat [Bol, Plus digit, Lit CHR ''.'', Star (Sym [Space])]"

definition bullet_pattern :: regex where
  \<comment> \<open>\<open>^[-...]\s*\<close>\<close>
  "bullet_pattern = Cat [Bol, bullet, Star (Sym [Space])]"

definition management_pattern :: regex where
  \<comment> \<open>\<open>[-...]\s*(?:stable|controlled|improved|management|adjustment)\<close>\<close>
  "management_pattern =
     Cat [Sym [Ch CHR ''-'', Ch (CHR 0xE2)], Star (Sym [Space]),
          Alts [Str ''stable'', Str ''controlled'', Str ''improved'', Str ''management'',
                Str ''adjustment'']]"

definition exclude_words :: "string list" where
  "exclude_words =
     [''adjustment'', ''management'', ''follow-up'', ''monitoring'', ''continued'',
      ''stable'', ''controlled'', ''improved'', ''resolved'', ''plan'', ''care'',
      ''treatment'', ''therapy'', ''medication'', ''drug'', ''well-controlled'']"

definition medical_indicators :: "string list" where
  "medical_indicators =
     [''syndrome'', ''disease'', ''disorder'', ''condition'', ''emia'', ''itis'',
      ''osis'', ''pathy'', ''cancer'', ''tumor'', ''failure'', ''infarction'',
      ''pneumonia'', ''diabetes'', ''hypertension'', ''coronary'', ''acute'']"

definition strip_markup :: "string \<Rightarrow> string" where
  \<comment> \<open>the two \<open>re.sub\<close> calls that remove numbering and bullets\<close>
  "strip_markup item = re_sub re_none bullet_pattern [] (re_sub re_none numbering_pattern [] item)"

definition clean_item :: "string \<Rightarrow> string option" where
  \<comment> \<open>the body of the loop over the items: the diagnosis it appends, or None where
      it appends nothing (\<open>continue\<close>, or the last test fails)\<close>
  "clean_item raw =
     (let item = py_strip raw in
      if item = [] \<or> length item < 5 then None
      else
        let item = strip_markup item;
            item_lower = py_lower item in
        if (\<exists>exclude \<in> set exclude_words. py_in exclude item_lower)
           \<and> \<not> (\<exists>med \<in> set medical_indicators. py_in med item_lower)
        then None
        else
          let diagnosis_part =
                py_strip (case re_split re_none management_pattern item of [] \<Rightarrow> [] | w # _ \<Rightarrow> w) in
          if diagnosis_part \<noteq> [] \<and> length diagnosis_part > 3 then Some diagnosis_part
          else None)"

definition clean_diagnosis_text :: "MedicalReportSummarizer \<Rightarrow> string \<Rightarrow> string list" where
  "clean_diagnosis_text self text =
     List.map_filter clean_item (re_split re_none item_split_pattern text)"

definition diagnosis_patterns :: "regex list" where
  \<comment> \<open>\<open>(?:Primary\s+)?Diagnosis[es]*[:\s]+(.*?)(?:\n\n|Plan|Medications|Treatment)\<close>,
      \<open>(?:Final\s+)?Impression[:\s]+(.*?)(?:\n\n|Plan|Recommendations)\<close>,
      \<open>Assessment[:\s]+(.*?)(?:\n\n|Plan|Treatment)\<close>,
      \<open>ICD[:\s]*(?:10|9)[:\s]+(.*?)(?:\n\n|Plan)\<close>\<close>
  "diagnosis_patterns =
     [Cat [Opt (Cat [Str ''Primary'', Plus (Sym [Space])]), Str ''Diagnosis'',
           Star (Sym [Ch CHR ''e'', Ch CHR ''s'']), Plus colon_space, Grp 1 (LStar Dot),
           Alts [Str [nl, nl], Str ''Plan'', Str ''Medications'', Str ''Treatment'']],
      Cat [Opt (Cat [Str ''Final'', Plus (Sym [Space])]), Str ''Impression'',
           Plus colon_space, Grp 1 (LStar Dot),
           Alts [Str [nl, nl], Str ''Plan'', Str ''Recommendations'']],
      Cat [Str ''Assessment'', Plus colon_space, Grp 1 (LStar Dot),
           Alts [Str [nl, nl], Str ''Plan'', Str ''Treatment'']],
      Cat [Str ''ICD'', Star colon_space, Alts [Str ''10'', Str ''9''], Plus colon_space,
           Grp 1 (LStar Dot), Alts [Str [nl, nl], Str ''Plan'']]]"

definition extract_diagnoses :: "MedicalReportSummarizer \<Rightarrow> string \<Rightarrow> string list" where
  "extract_diagnoses self text =
     (let diagnoses =
            (case first_search re_I_S diagnosis_patterns text of
               Some m \<Rightarrow> clean_diagnosis_text self (py_strip (group m 1))
             | None \<Rightarrow> [])
      in take 10 diagnoses)"

subsection \<open>Medications\<close>

definition medication_patterns :: "regex list" where
  \<comment> \<open>\<open>Medications?[:\s]+(.*?)(?:\n\n|Allergies|Procedures)\<close>, and the same after
      \<open>Current Medications\<close> and after \<open>Rx\<close>\<close>
  "medication_patterns =
     [Cat [Str ''Medication'', Opt (Lit CHR ''s''), Plus colon_space, Grp 1 (LStar Dot),
           Alts [Str [nl, nl], Str ''Allergies'', Str ''Procedures'']],
      Cat [Str ''Current Medications'', Plus colon_space, Grp 1 (LStar Dot),
           Alts [Str [nl, nl], Str ''Allergies'', Str ''Procedures'']],
      Cat [Str ''Rx'', Plus colon_space, Grp 1 (LStar Dot),
           Alts [Str [nl, nl], Str ''Allergies'', Str ''Procedures'']]]"

definition dosage_pattern :: regex where
  \<comment> \<open>\<open>([A-Za-z]+(?:\s+[A-Za-z]+)*)\s+\d+(?:mg|mcg|g)\<close>\<close>
  "dosage_pattern =
     Cat [Grp 1 (Cat [Plus letter, Star (Cat [Plus (Sym [Space]), Plus letter])]),
          Plus (Sym [Space]), Plus digit, Alts [Str ''mg'', Str ''mcg'', Str ''g'']]"

definition numbered_pattern :: regex where
  \<comment> \<open>\<open>^\d+\.\<close>\<close>
  "numbered_pattern = Cat [Bol, Plus digit, Lit CHR ''.'']"

definition medication_lines :: "string \<Rightarrow> string list" where
  \<comment> \<open>the loop over \<open>med_text.split('\n')\<close>: the stripped lines it appends\<close>
  "medication_lines med_text =
     filter (\<lambda>line. line \<noteq> [] \<and> re_match re_none numbered_pattern line = None)
       (map py_strip (py_split nl med_text))"

definition extract_medications :: "MedicalReportSummarizer \<Rightarrow> string \<Rightarrow> string list" where
  "extract_medications self text =
     (let medications =
            (case first_search re_I_S medication_patterns text of
               Some m \<Rightarrow>
                 (let med_text = group m 1;
                      med_items = re_findall re_none dosage_pattern med_text
                  in med_items @ medication_lines med_text)
             | None \<Rightarrow> [])
      in take 15 medications)"

subsection \<open>Vital signs and laboratory results\<close>

definition bp_pattern :: regex where
  \<comment> \<open>\<open>BP[:\s]+(\d+/\d+)\<close>\<close>
  "bp_pattern =
     Cat [Str ''BP'', Plus colon_space, Grp 1 (Cat [Plus digit, Lit CHR ''/'', Plus digit])]"

definition hr_pattern :: regex where
  \<comment> \<open>\<open>HR[:\s]+(\d+)\<close>\<close>
  "hr_pattern = Cat [Str ''HR'', Plus colon_space, Grp 1 (Plus digit)]"

definition temp_pattern :: regex where
  \<comment> \<open>\<open>Temp[:\s]+(\d+\.?\d*)\<close>\<close>
  "temp_pattern =
     Cat [Str ''Temp'', Plus colon_space, Grp 1 (Cat [Plus digit, Opt (Lit CHR ''.''), Star digit])]"

definition rr_pattern :: regex where
  \<comment> \<open>\<open>RR[:\s]+(\d+)\<close>\<close>
  "rr_pattern = Cat [Str ''RR'', Plus colon_space, Grp 1 (Plus digit)]"

definition o2_pattern :: regex where
  \<comment> \<open>\<open>O2 Sat[:\s]+(\d+%)\<close>\<close>
  "o2_pattern = Cat [Str ''O2 Sat'', Plus colon_space, Grp 1 (Cat [Plus digit, Lit CHR ''%''])]"

definition extract_vital_signs :: "MedicalReportSummarizer \<Rightarrow> string \<Rightarrow> (string \<rightharpoonup> string)" where
  "extract_vital_signs self text =
     (let vitals = Map.empty;
          vitals = (case re_search re_I bp_pattern text of
                      Some bp_match \<Rightarrow> vitals(''Blood Pressure'' \<mapsto> group bp_match 1)
                    | None \<Rightarrow> vitals);
          vitals = (case re_search re_I hr_pattern text of
                      Some hr_match \<Rightarrow> vitals(''Heart Rate'' \<mapsto> group hr_match 1 @ '' bpm'')
                    | None \<Rightarrow> vitals);
          vitals = (case re_search re_I temp_pattern text of
                      Some temp_match \<Rightarrow>
                        vitals(''Temperature'' \<mapsto> group temp_match 1 @ [CHR 0xC2, CHR 0xB0, CHR ''F''])
                    | None \<Rightarrow> vitals);
          vitals = (case re_search re_I rr_pattern text of
                      Some rr_match \<Rightarrow> vitals(''Respiratory Rate'' \<mapsto> group rr_match 1 @ '' /min'')
                    | None \<Rightarrow> vitals);
          vitals = (case re_search re_I o2_pattern text of
                      Some o2_match \<Rightarrow> vitals(''Oxygen Saturation'' \<mapsto> group o2_match 1)
                    | None \<Rightarrow> vitals)
      in vitals)"

definition number_pattern :: regex where
  \<comment> \<open>\<open>\d+\.?\d*\<close>\<close>
  "number_pattern = Cat [Plus digit, Opt (Lit CHR ''.''), Star digit]"

definition lab_patterns :: "regex list" where
  \<comment> \<open>\<open>(Hemoglobin|Hgb)[:\s]+(\d+\.?\d*)\<close>, \<open>(WBC|White Blood Cell)[:\s]+(\d+\.?\d*)\<close>,
      \<open>(Glucose)[:\s]+(\d+)\<close>, \<open>(Creatinine)[:\s]+(\d+\.?\d*)\<close>, \<open>(BUN)[:\s]+(\d+)\<close>,
      \<open>(Cholesterol)[:\s]+(\d+)\<close>\<close>
  "lab_patterns =
     [Cat [Grp 1 (Alts [Str ''Hemoglobin'', Str ''Hgb'']), Plus colon_space, Grp 2 number_pattern],
      Cat [Grp 1 (Alts [Str ''WBC'', Str ''White Blood Cell'']), Plus colon_space, Grp 2 number_pattern],
      Cat [Grp 1 (Str ''Glucose''), Plus colon_space, Grp 2 (Plus digit)],
      Cat [Grp 1 (Str ''Creatinine''), Plus colon_space, Grp 2 number_pattern],
      Cat [Grp 1 (Str ''BUN''), Plus colon_space, Grp 2 (Plus digit)],
      Cat [Grp 1 (Str ''Cholesterol''), Plus colon_space, Grp 2 (Plus digit)]]"

definition lab_entry :: "pymatch \<Rightarrow> string" where
  \<comment> \<open>\<open>f"{match.group(1)}: {match.group(2)}"\<close>\<close>
  "lab_entry m = group m 1 @ '': '' @ group m 2"

definition extract_lab_results :: "MedicalReportSummarizer \<Rightarrow> string \<Rightarrow> string list" where
  "extract_lab_results self text =
     concat (map (\<lambda>pattern. map lab_entry (re_finditer re_I pattern text)) lab_patterns)"

subsection \<open>Critical flags and the summary\<close>

definition critical_terms :: "string list" where
  "critical_terms =
     [''critical'', ''urgent'', ''emergency'', ''acute'', ''severe'',
      ''chest pain'', ''shortness of breath'', ''stroke'', ''heart attack'',
      ''allergic reaction'', ''sepsis'', ''pneumonia'']"

definition warning_sign :: unicode where
  \<comment> \<open>the characters that open every flag in the source file, a doubly encoded warning
      sign: the code points 0xE2, 0x161, 0xA0, 0xEF, 0xB8, then a space. One of them lies
      beyond Latin-1, so a flag is a list of code points.\<close>
  "warning_sign = [0xE2, 0x161, 0xA0, 0xEF, 0xB8, 0x20]"

definition mentioned_flag :: "string \<Rightarrow> unicode" where
  \<comment> \<open>the f-string of a vocabulary flag: the sign, \<open>term.title()\<close>, \<open>mentioned\<close>\<close>
  "mentioned_flag t = warning_sign @ map code (py_title t) @ map code '' mentioned''"

definition abnormal_bp_flag :: unicode where
  "abnormal_bp_flag = warning_sign @ map code ''Abnormal Blood Pressure''"

definition identify_critical_flags ::
  "interpreter \<Rightarrow> MedicalReportSummarizer \<Rightarrow> string \<Rightarrow> MedicalSummary \<Rightarrow> py_error + unicode list" where
  "identify_critical_flags interp self text summary =
     (let text_lower = py_lower text;
          flags = map mentioned_flag (filter (\<lambda>t. py_in t text_lower) critical_terms)
      in case vital_signs summary ''Blood Pressure'' of
           None \<Rightarrow> Inr flags
         | Some bp \<Rightarrow>
             if py_in ''/'' bp then
               (case py_split CHR ''/'' bp of
                  [] \<Rightarrow> Inl IndexError
                | first # _ \<Rightarrow>
                    (case py_int interp first of
                       Inl e \<Rightarrow> Inl e
                     | Inr systolic \<Rightarrow>
                         if systolic > 140 \<or> systolic < 90 then Inr (flags @ [abnormal_bp_flag])
                         else Inr flags))
             else Inr flags)"

definition summarize_report ::
  "interpreter \<Rightarrow> MedicalReportSummarizer \<Rightarrow> string \<Rightarrow> py_error + MedicalSummary" where
  "summarize_report interp self medical_report =
     (let patient_info = extract_patient_info self medical_report;
          chief_complaint = extract_chief_complaint self medical_report;
          diagnoses = extract_diagnoses self medical_report;
          medications = extract_medications self medical_report;
          vital_signs = extract_vital_signs self medical_report;
          lab_results = extract_lab_results self medical_report;
          summary = \<lparr>patient_info = patient_info, chief_complaint = chief_complaint,
                     diagnosis = diagnoses, medications = medications,
                     vital_signs = vital_signs, procedures = [], allergies = [],
                     lab_results = lab_results, recommendations = [], critical_flags = []\<rparr>
      in case identify_critical_flags interp self medical_report summary of
           Inl e \<Rightarrow> Inl e
         | Inr flags \<Rightarrow> Inr (summary\<lparr>critical_flags := flags\<rparr>))"

subsection \<open>Notions used in the properties\<close>

text \<open>
  Three names for parts of the code above: the flags that the loop over the critical terms
  of \<open>identify_critical_flags\<close> collects, the piece \<open>bp.split("/")[0]\<close> of a blood
  pressure that contains a slash, and the shape \<open>\d+/\d+\<close> of the group of the blood
  pressure pattern.
\<close>

definition vocabulary_flags :: "string \<Rightarrow> unicode list" where
  "vocabulary_flags text = map mentioned_flag (filter (\<lambda>t. py_in t (py_lower text)) critical_terms)"

definition systolic_of :: "string \<Rightarrow> string" where
  "systolic_of bp = takeWhile (\<lambda>c. c \<noteq> CHR ''/'') bp"

definition bp_shape :: "string \<Rightarrow> bool" where
  "bp_shape u = (\<exists>d1 d2. u = d1 @ CHR ''/'' # d2 \<and> d1 \<noteq> [] \<and> (\<forall>c \<in> set d1. py_isdigit c)
                    \<and> d2 \<noteq> [] \<and> (\<forall>c \<in> set d2. py_isdigit c))"

section \<open>Properties of the matcher\<close>

subsection \<open>Characters\<close>

lemma code_char_of: "n < 256 \<Longrightarrow> code (char_of n) = n"
  by (simp add: code_def)

lemma char_of_code: "char_of (code c) = c"
  by (simp add: code_def)

lemma code_lt: "code c < 256"
  by (simp add: code_def)

lemma code_lower: "code (lower_char c) = (if py_isupper c then code c + 32 else code c)"
  using code_lt[of c] by (auto simp: lower_char_def code_char_of py_isupper_def)

lemma code_upper: "code (upper_char c) = (if py_islower c then code c - 32 else code c)"
  using code_lt[of c] by (auto simp: upper_char_def code_char_of py_islower_def)

lemma code_inj: "code a = code b \<Longrightarrow> a = b"
  by (simp add: code_def)

lemma lower_char_idem: "lower_char (lower_char c) = lower_char c"
  by (rule code_inj) (auto simp: code_lower py_isupper_def)

lemma lower_upper_char: "lower_char (upper_char c) = lower_char c"
  by (rule code_inj) (auto simp: code_lower code_upper py_isupper_def py_islower_def)

subsection \<open>The language of a pattern and the groups of a match\<close>

text \<open>
  \<open>lang fl r\<close> is the set of strings that the pattern \<open>r\<close> can consume (an anchor and a
  lookahead consume nothing). Whatever \<open>rmatch\<close> consumes lies in it, so what a group
  captures lies in the language of the group's pattern: \<open>caps_ok fl Q r\<close> says that
  every string a group \<open>k\<close> of \<open>r\<close> can capture satisfies \<open>Q k\<close>. \<open>sets_group k r\<close>
  says that group \<open>k\<close> lies on every path through \<open>r\<close>.
\<close>

primrec lang :: "flags \<Rightarrow> regex \<Rightarrow> string set" where
  "lang fl Eps = {[]}"
| "lang fl (Sym its) = {[c] | c. sym_ok fl its c}"
| "lang fl Dot = {[c] | c. dotall fl \<or> c \<noteq> CHR 0x0A}"
| "lang fl Bol = {[]}"
| "lang fl (Seq r1 r2) = {u @ v | u v. u \<in> lang fl r1 \<and> v \<in> lang fl r2}"
| "lang fl (Alt r1 r2) = lang fl r1 \<union> lang fl r2"
| "lang fl (Star r) = {concat ws | ws. set ws \<subseteq> lang fl r}"
| "lang fl (LStar r) = {concat ws | ws. set ws \<subseteq> lang fl r}"
| "lang fl (Grp k r) = lang fl r"
| "lang fl (Look r) = {[]}"

primrec caps_ok :: "flags \<Rightarrow> (nat \<Rightarrow> string \<Rightarrow> bool) \<Rightarrow> regex \<Rightarrow> bool" where
  "caps_ok fl Q Eps = True"
| "caps_ok fl Q (Sym its) = True"
| "caps_ok fl Q Dot = True"
| "caps_ok fl Q Bol = True"
| "caps_ok fl Q (Seq r1 r2) = (caps_ok fl Q r1 \<and> caps_ok fl Q r2)"
| "caps_ok fl Q (Alt r1 r2) = (caps_ok fl Q r1 \<and> caps_ok fl Q r2)"
| "caps_ok fl Q (Star r) = caps_ok fl Q r"
| "caps_ok fl Q (LStar r) = caps_ok fl Q r"
| "caps_ok fl Q (Grp k r) = ((\<forall>u \<in> lang fl r. Q k u) \<and> caps_ok fl Q r)"
| "caps_ok fl Q (Look r) = caps_ok fl Q r"

primrec sets_group :: "nat \<Rightarrow> regex \<Rightarrow> bool" where
  "sets_group k Eps = False"
| "sets_group k (Sym its) = False"
| "sets_group k Dot = False"
| "sets_group k Bol = False"
| "sets_group k (Seq r1 r2) = (sets_group k r1 \<or> sets_group k r2)"
| "sets_group k (Alt r1 r2) = (sets_group k r1 \<and> sets_group k r2)"
| "sets_group k (Star r) = False"
| "sets_group k (LStar r) = False"
| "sets_group k (Grp j r) = (j = k \<or> sets_group k r)"
| "sets_group k (Look r) = False"

lemma rmatch_sound:
  "(p', s', g') \<in> set (rmatch fl r (p, s, g)) \<Longrightarrow> \<exists>u. s = u @ s' \<and> u \<in> lang fl r"
proof (induction fl r "(p, s, g)" arbitrary: p s g p' s' g' rule: rmatch.induct)
  case (1 fl) then show ?case by simp
next
  case (2 fl its) then show ?case by (auto split: list.splits if_splits)
next
  case (3 fl) then show ?case by (auto split: list.splits if_splits)
next
  case (4 fl) then show ?case by (auto split: if_splits)
next
  case (5 fl r1 r2)
  from 5(3) obtain p1 s1 g1 where a: "(p1, s1, g1) \<in> set (rmatch fl r1 (p, s, g))"
      and b: "(p', s', g') \<in> set (rmatch fl r2 (p1, s1, g1))" by auto
  from 5(1)[OF a] obtain u where u: "s = u @ s1" "u \<in> lang fl r1" by blast
  from 5(2)[OF a b] obtain v where v: "s1 = v @ s'" "v \<in> lang fl r2" by blast
  show ?case using u v by (intro exI[of _ "u @ v"]) auto
next
  case (6 fl r1 r2)
  from 6(3) consider "(p', s', g') \<in> set (rmatch fl r1 (p, s, g))"
    | "(p', s', g') \<in> set (rmatch fl r2 (p, s, g))" by auto
  then show ?case
  proof cases
    case 1 from 6(1)[OF this] show ?thesis by auto
  next
    case 2 from 6(2)[OF this] show ?thesis by auto
  qed
next
  case (7 fl r)
  show ?case
  proof (cases "(p', s', g') = (p, s, g)")
    case True
    have "[] \<in> lang fl (Star r)" by (simp, rule exI[of _ "[]"]) simp
    with True show ?thesis by auto
  next
    case False
    with 7(3) obtain p1 s1 g1 where a: "(p1, s1, g1) \<in> set (rmatch fl r (p, s, g))"
      and adv: "advances (p, s, g) (p1, s1, g1)"
      and b: "(p', s', g') \<in> set (rmatch fl (Star r) (p1, s1, g1))"
      by (subst (asm) rmatch_Star_mem) auto
    from 7(1)[OF a] obtain u where u: "s = u @ s1" "u \<in> lang fl r" by blast
    from a adv have "(p1, s1, g1) \<in> set (filter (advances (p, s, g)) (rmatch fl r (p, s, g)))" by simp
    from 7(2)[OF this b] obtain v where v: "s1 = v @ s'" "v \<in> lang fl (Star r)" by blast
    from v(2) obtain ws where ws: "v = concat ws" "set ws \<subseteq> lang fl r" by auto
    have "u @ v \<in> lang fl (Star r)"
      using u(2) ws by (simp, intro exI[of _ "u # ws"]) simp
    then show ?thesis using u v by (intro exI[of _ "u @ v"]) simp
  qed
next
  case (8 fl r)
  show ?case
  proof (cases "(p', s', g') = (p, s, g)")
    case True
    have "[] \<in> lang fl (LStar r)" by (simp, rule exI[of _ "[]"]) simp
    with True show ?thesis by auto
  next
    case False
    with 8(3) obtain p1 s1 g1 where a: "(p1, s1, g1) \<in> set (rmatch fl r (p, s, g))"
      and adv: "advances (p, s, g) (p1, s1, g1)"
      and b: "(p', s', g') \<in> set (rmatch fl (LStar r) (p1, s1, g1))"
      by (subst (asm) rmatch_LStar_mem) auto
    from 8(1)[OF a] obtain u where u: "s = u @ s1" "u \<in> lang fl r" by blast
    from a adv have "(p1, s1, g1) \<in> set (filter (advances (p, s, g)) (rmatch fl r (p, s, g)))" by simp
    from 8(2)[OF this b] obtain v where v: "s1 = v @ s'" "v \<in> lang fl (LStar r)" by blast
    from v(2) obtain ws where ws: "v = concat ws" "set ws \<subseteq> lang fl r" by auto
    have "u @ v \<in> lang fl (LStar r)"
      using u(2) ws by (simp, intro exI[of _ "u # ws"]) simp
    then show ?thesis using u v by (intro exI[of _ "u @ v"]) simp
  qed
next
  case (9 fl k r)
  then show ?case by auto
next
  case (10 fl r)
  then show ?case by (auto split: if_splits)
qed

lemma rmatch_caps:
  "(p', s', g') \<in> set (rmatch fl r (p, s, g)) \<Longrightarrow> caps_ok fl Q r \<Longrightarrow>
   (\<And>k u. g k = Some u \<Longrightarrow> Q k u) \<Longrightarrow> g' k = Some u \<Longrightarrow> Q k u"
proof (induction fl r "(p, s, g)" arbitrary: p s g p' s' g' k u rule: rmatch.induct)
  case (1 fl) then show ?case by simp
next
  case (2 fl its) then show ?case by (auto split: list.splits if_splits)
next
  case (3 fl) then show ?case by (auto split: list.splits if_splits)
next
  case (4 fl) then show ?case by (auto split: if_splits)
next
  case (5 fl r1 r2)
  from 5(3) obtain p1 s1 g1 where a: "(p1, s1, g1) \<in> set (rmatch fl r1 (p, s, g))"
      and b: "(p', s', g') \<in> set (rmatch fl r2 (p1, s1, g1))" by auto
  have g1: "\<And>k u. g1 k = Some u \<Longrightarrow> Q k u"
    using 5(1)[OF a _ 5(5)] 5(4) by auto
  show ?case using 5(2)[OF a b _ g1 5(6)] 5(4) by auto
next
  case (6 fl r1 r2)
  then show ?case by auto
next
  case (7 fl r)
  show ?case
  proof (cases "(p', s', g') = (p, s, g)")
    case True with 7 show ?thesis by auto
  next
    case False
    with 7(3) obtain p1 s1 g1 where a: "(p1, s1, g1) \<in> set (rmatch fl r (p, s, g))"
      and adv: "advances (p, s, g) (p1, s1, g1)"
      and b: "(p', s', g') \<in> set (rmatch fl (Star r) (p1, s1, g1))"
      by (subst (asm) rmatch_Star_mem) auto
    have g1: "\<And>k u. g1 k = Some u \<Longrightarrow> Q k u"
      using 7(1)[OF a _ 7(5)] 7(4) by auto
    from a adv have "(p1, s1, g1) \<in> set (filter (advances (p, s, g)) (rmatch fl r (p, s, g)))" by simp
    from 7(2)[OF this b 7(4) g1 7(6)] show ?thesis .
  qed
next
  case (8 fl r)
  show ?case
  proof (cases "(p', s', g') = (p, s, g)")
    case True with 8 show ?thesis by auto
  next
    case False
    with 8(3) obtain p1 s1 g1 where a: "(p1, s1, g1) \<in> set (rmatch fl r (p, s, g))"
      and adv: "advances (p, s, g) (p1, s1, g1)"
      and b: "(p', s', g') \<in> set (rmatch fl (LStar r) (p1, s1, g1))"
      by (subst (asm) rmatch_LStar_mem) auto
    have g1: "\<And>k u. g1 k = Some u \<Longrightarrow> Q k u"
      using 8(1)[OF a _ 8(5)] 8(4) by auto
    from a adv have "(p1, s1, g1) \<in> set (filter (advances (p, s, g)) (rmatch fl r (p, s, g)))" by simp
    from 8(2)[OF this b 8(4) g1 8(6)] show ?thesis .
  qed
next
  case (9 fl j r p s g)
  from 9(2) obtain g1 where a: "(p', s', g1) \<in> set (rmatch fl r (p, s, g))"
    and g': "g' = g1(j \<mapsto> take (p' - p) s)" by auto
  from rmatch_shape[OF a] obtain w where w: "s = w @ s'" "p' = p + length w" by blast
  from rmatch_sound[OF a] obtain w' where w': "s = w' @ s'" "w' \<in> lang fl r" by blast
  from w w' have "take (p' - p) s \<in> lang fl r" by auto
  with 9(3) have Qj: "Q j (take (p' - p) s)" by auto
  have g1: "\<And>k u. g1 k = Some u \<Longrightarrow> Q k u"
    using 9(1)[OF a _ 9(4)] 9(3) by auto
  show ?case using 9(5) g' Qj g1 by (auto split: if_splits)
next
  case (10 fl r)
  then show ?case by (auto split: if_splits)
qed

lemma rmatch_keeps_group:
  "(p', s', g') \<in> set (rmatch fl r (p, s, g)) \<Longrightarrow> g k \<noteq> None \<Longrightarrow> g' k \<noteq> None"
proof (induction fl r "(p, s, g)" arbitrary: p s g p' s' g' rule: rmatch.induct)
  case (5 fl r1 r2)
  from 5(3) obtain p1 s1 g1 where a: "(p1, s1, g1) \<in> set (rmatch fl r1 (p, s, g))"
      and b: "(p', s', g') \<in> set (rmatch fl r2 (p1, s1, g1))" by auto
  from 5(2)[OF a b 5(1)[OF a 5(4)]] show ?case .
next
  case (7 fl r)
  show ?case
  proof (cases "(p', s', g') = (p, s, g)")
    case True with 7 show ?thesis by auto
  next
    case False
    with 7(3) obtain p1 s1 g1 where a: "(p1, s1, g1) \<in> set (rmatch fl r (p, s, g))"
      and adv: "advances (p, s, g) (p1, s1, g1)"
      and b: "(p', s', g') \<in> set (rmatch fl (Star r) (p1, s1, g1))"
      by (subst (asm) rmatch_Star_mem) auto
    from a adv have "(p1, s1, g1) \<in> set (filter (advances (p, s, g)) (rmatch fl r (p, s, g)))" by simp
    from 7(2)[OF this b 7(1)[OF a 7(4)]] show ?thesis .
  qed
next
  case (8 fl r)
  show ?case
  proof (cases "(p', s', g') = (p, s, g)")
    case True with 8 show ?thesis by auto
  next
    case False
    with 8(3) obtain p1 s1 g1 where a: "(p1, s1, g1) \<in> set (rmatch fl r (p, s, g))"
      and adv: "advances (p, s, g) (p1, s1, g1)"
      and b: "(p', s', g') \<in> set (rmatch fl (LStar r) (p1, s1, g1))"
      by (subst (asm) rmatch_LStar_mem) auto
    from a adv have "(p1, s1, g1) \<in> set (filter (advances (p, s, g)) (rmatch fl r (p, s, g)))" by simp
    from 8(2)[OF this b 8(1)[OF a 8(4)]] show ?thesis .
  qed
qed (auto split: list.splits if_splits)

lemma rmatch_sets_group:
  "(p', s', g') \<in> set (rmatch fl r (p, s, g)) \<Longrightarrow> sets_group k r \<Longrightarrow> g' k \<noteq> None"
proof (induction r arbitrary: p s g p' s' g')
  case (Seq r1 r2)
  from Seq(3) obtain p1 s1 g1 where a: "(p1, s1, g1) \<in> set (rmatch fl r1 (p, s, g))"
      and b: "(p', s', g') \<in> set (rmatch fl r2 (p1, s1, g1))" by auto
  show ?case
  proof (cases "sets_group k r1")
    case True
    from rmatch_keeps_group[OF b Seq(1)[OF a True]] show ?thesis .
  next
    case False
    with Seq(4) have "sets_group k r2" by simp
    from Seq(2)[OF b this] show ?thesis .
  qed
next
  case (Alt r1 r2)
  then show ?case by auto
next
  case (Grp j r)
  from Grp(2) obtain g1 where a: "(p', s', g1) \<in> set (rmatch fl r (p, s, g))"
    and g': "g' = g1(j \<mapsto> take (p' - p) s)" by auto
  show ?case using Grp(1)[OF a] Grp(3) g' by auto
qed simp_all

subsection \<open>Matches reported by the search functions\<close>

lemma search_from_sound:
  "search_from fl r p s = Some (b, e, s', g) \<Longrightarrow>
     \<exists>u t. s = u @ t \<and> b = p + length u \<and> (e, s', g) \<in> set (rmatch fl r (b, t, Map.empty))"
proof (induction s arbitrary: p)
  case Nil
  then have "(e, s', g) \<in> set (rmatch fl r (p, [], Map.empty))" and "b = p"
    by (auto split: list.splits)
  then show ?case by auto
next
  case (Cons c cs)
  show ?case
  proof (cases "rmatch fl r (p, c # cs, Map.empty)")
    case Nil
    with Cons.prems have "search_from fl r (p + 1) cs = Some (b, e, s', g)" by simp
    from Cons.IH[OF this] obtain u t where "cs = u @ t" "b = p + 1 + length u"
      "(e, s', g) \<in> set (rmatch fl r (b, t, Map.empty))" by blast
    then show ?thesis by (intro exI[of _ "c # u"] exI[of _ t]) simp
  next
    case (Cons m ms)
    with Cons.prems have "m = (e, s', g)" "b = p" by auto
    with Cons have "(e, s', g) \<in> set (rmatch fl r (b, c # cs, Map.empty))" by simp
    with \<open>b = p\<close> show ?thesis by (intro exI[of _ "[]"] exI[of _ "c # cs"]) simp
  qed
qed

lemma search_adv_sound:
  "search_adv fl r p s = Some (b, e, s', g) \<Longrightarrow>
     \<exists>u t. s = u @ t \<and> b = p + length u \<and> (e, s', g) \<in> set (rmatch fl r (b, t, Map.empty))"
proof (cases "filter (\<lambda>(p', s', g'). p' \<noteq> p) (rmatch fl r (p, s, Map.empty))")
  case Nil
  assume a: "search_adv fl r p s = Some (b, e, s', g)"
  with Nil obtain c cs where s: "s = c # cs" and "search_from fl r (p + 1) cs = Some (b, e, s', g)"
    by (cases s) (auto simp: search_adv_def)
  from search_from_sound[OF this(2)] obtain u t where "cs = u @ t" "b = p + 1 + length u"
      "(e, s', g) \<in> set (rmatch fl r (b, t, Map.empty))" by blast
  with s show ?thesis by (intro exI[of _ "c # u"] exI[of _ t]) simp
next
  case (Cons m ms)
  assume a: "search_adv fl r p s = Some (b, e, s', g)"
  with Cons have m: "m = (e, s', g)" "b = p" by (auto simp: search_adv_def)
  have "m \<in> set (filter (\<lambda>(p', s', g'). p' \<noteq> p) (rmatch fl r (p, s, Map.empty)))"
    using Cons by simp
  with m have "(e, s', g) \<in> set (rmatch fl r (b, s, Map.empty))" by auto
  with m show ?thesis by (intro exI[of _ "[]"] exI[of _ s]) simp
qed

text \<open>
  \<open>is_match fl r text m\<close>: the match object \<open>m\<close> is a match of the pattern at position
  \<open>m_start m\<close> of the text. Everything \<open>re.search\<close>, the loop over alternative patterns
  and \<open>re.finditer\<close> report is one.
\<close>

definition is_match :: "flags \<Rightarrow> regex \<Rightarrow> string \<Rightarrow> pymatch \<Rightarrow> bool" where
  "is_match fl r text m =
     (m_start m \<le> length text \<and>
      (\<exists>s'. (m_end m, s', m_groups m) \<in> set (rmatch fl r (m_start m, drop (m_start m) text, Map.empty))))"

lemma re_search_is_match:
  "re_search fl r text = Some m \<Longrightarrow> is_match fl r text m"
proof -
  assume "re_search fl r text = Some m"
  then obtain b e s' g where sf: "search_from fl r 0 text = Some (b, e, s', g)" and m: "m = Match b e g"
    by (auto simp: re_search_def to_match_def split: option.splits)
  from search_from_sound[OF sf] obtain u t where "text = u @ t" "b = length u"
      "(e, s', g) \<in> set (rmatch fl r (b, t, Map.empty))" by auto
  then show ?thesis using m by (auto simp: is_match_def)
qed

lemma first_search_is_match:
  "first_search fl rs text = Some m \<Longrightarrow> \<exists>r \<in> set rs. is_match fl r text m"
  by (induction rs) (auto split: option.splits dest: re_search_is_match)

lemma is_match_group:
  assumes "is_match fl r text m" "caps_ok fl Q r" "sets_group k r"
  shows "Q k (group m k)"
proof -
  from assms(1) obtain s' where
    a: "(m_end m, s', m_groups m) \<in> set (rmatch fl r (m_start m, drop (m_start m) text, Map.empty))"
    by (auto simp: is_match_def)
  from rmatch_sets_group[OF a assms(3)] obtain u where u: "m_groups m k = Some u" by auto
  from rmatch_caps[OF a assms(2) _ u] have "Q k u" by simp
  with u show ?thesis by (simp add: group_def)
qed

lemma scan_is_match:
  "m \<in> set (scan fl r adv p s) \<Longrightarrow>
     \<exists>u t s'. s = u @ t \<and> m_start m = p + length u
        \<and> (m_end m, s', m_groups m) \<in> set (rmatch fl r (m_start m, t, Map.empty))"
proof (induction fl r adv p s rule: scan.induct)
  case (1 fl r adv p s)
  show ?case
  proof (cases "if adv then search_adv fl r p s else search_from fl r p s")
    case None
    with 1(2) show ?thesis by (subst (asm) scan.simps) simp
  next
    case (Some x)
    obtain b e s' g where x: "x = (b, e, s', g)" by (cases x) auto
    from Some x have snd: "\<exists>u t. s = u @ t \<and> b = p + length u \<and> (e, s', g) \<in> set (rmatch fl r (b, t, Map.empty))"
      by (auto split: if_splits dest: search_adv_sound search_from_sound)
    from 1(2) Some x have "m = Match b e g \<or> m \<in> set (scan fl r (e = b) e s')"
      by (subst (asm) scan.simps) auto
    then show ?thesis
    proof
      assume "m = Match b e g"
      with snd show ?thesis by auto
    next
      assume mm: "m \<in> set (scan fl r (e = b) e s')"
      from 1(1)[OF Some[unfolded x] refl refl refl mm] obtain u t s'' where
        ih: "s' = u @ t" "m_start m = e + length u"
        "(m_end m, s'', m_groups m) \<in> set (rmatch fl r (m_start m, t, Map.empty))" by blast
      from snd obtain u0 t0 where u0: "s = u0 @ t0" "b = p + length u0"
        "(e, s', g) \<in> set (rmatch fl r (b, t0, Map.empty))" by blast
      from rmatch_shape[OF u0(3)] obtain w where w: "t0 = w @ s'" "e = b + length w" by blast
      show ?thesis using ih u0 w
        by (intro exI[of _ "u0 @ w @ u"] exI[of _ t] exI[of _ s'']) simp
    qed
  qed
qed

lemma re_finditer_is_match:
  "m \<in> set (re_finditer fl r text) \<Longrightarrow> is_match fl r text m"
proof -
  assume "m \<in> set (re_finditer fl r text)"
  then have "m \<in> set (scan fl r False 0 text)" by (simp add: re_finditer_def)
  from scan_is_match[OF this] obtain u t s' where "text = u @ t" "m_start m = length u"
    "(m_end m, s', m_groups m) \<in> set (rmatch fl r (m_start m, t, Map.empty))" by auto
  then show ?thesis by (auto simp: is_match_def)
qed

subsection \<open>Patterns built with the abbreviations\<close>

lemma lang_Cat_Nil [simp]: "lang fl (Cat []) = {[]}"
  by (simp add: Cat_def)

lemma lang_Cat_Cons [simp]: "lang fl (Cat (r # rs)) = {u @ v | u v. u \<in> lang fl r \<and> v \<in> lang fl (Cat rs)}"
  by (simp add: Cat_def)

lemma lang_Alts [simp]: "lang fl (Alts rs) = (\<Union>r \<in> set rs. lang fl r)"
  by (induction rs) (auto simp: Alts_def sym_ok_def)

lemma lang_Lit [simp]: "lang fl (Lit a) = {[c] | c. sym_ok fl [Ch a] c}"
  by (simp add: Lit_def)

lemma sym_ok_Ch_lower: "sym_ok fl [Ch a] c \<Longrightarrow> lower_char c = lower_char a"
  by (auto simp: sym_ok_def lower_char_idem lower_upper_char)

lemma sym_ok_Ch_exact: "\<not> ignorecase fl \<Longrightarrow> sym_ok fl [Ch a] c \<longleftrightarrow> c = a"
  by (auto simp: sym_ok_def)

lemma lang_Str_lower: "u \<in> lang fl (Str w) \<Longrightarrow> py_lower u = py_lower w"
  unfolding Str_def
  by (induction w arbitrary: u) (auto simp: py_lower_def dest: sym_ok_Ch_lower)

lemma lang_Str_exact: "\<not> ignorecase fl \<Longrightarrow> u \<in> lang fl (Str w) \<Longrightarrow> u = w"
  unfolding Str_def
  by (induction w arbitrary: u) (auto simp: sym_ok_Ch_exact)

lemma caps_ok_Cat [simp]: "caps_ok fl Q (Cat rs) = (\<forall>r \<in> set rs. caps_ok fl Q r)"
  by (induction rs) (auto simp: Cat_def)

lemma caps_ok_Alts [simp]: "caps_ok fl Q (Alts rs) = (\<forall>r \<in> set rs. caps_ok fl Q r)"
  by (induction rs) (auto simp: Alts_def)

lemma caps_ok_Str [simp]: "caps_ok fl Q (Str w)"
  by (simp add: Str_def Lit_def)

lemma caps_ok_Lit [simp]: "caps_ok fl Q (Lit c)"
  by (simp add: Lit_def)

lemma caps_ok_Plus [simp]: "caps_ok fl Q (Plus r) = caps_ok fl Q r"
  by (simp add: Plus_def)

lemma caps_ok_LPlus [simp]: "caps_ok fl Q (LPlus r) = caps_ok fl Q r"
  by (simp add: LPlus_def)

lemma caps_ok_Opt [simp]: "caps_ok fl Q (Opt r) = caps_ok fl Q r"
  by (simp add: Opt_def)

lemma sets_group_Cat [simp]: "sets_group k (Cat rs) = (\<exists>r \<in> set rs. sets_group k r)"
  by (induction rs) (auto simp: Cat_def)

lemma caps_ok_classes [simp]: "caps_ok fl Q colon_space" "caps_ok fl Q digit" "caps_ok fl Q letter"
  by (simp_all add: colon_space_def digit_def letter_def)

subsection \<open>Matches in document order\<close>

text \<open>
  \<open>min_len r\<close> is a lower bound on what \<open>r\<close> consumes. The matches that the scan for all
  matches reports lie one after the other in the text.
\<close>

primrec min_len :: "regex \<Rightarrow> nat" where
  "min_len Eps = 0"
| "min_len (Sym its) = 1"
| "min_len Dot = 1"
| "min_len Bol = 0"
| "min_len (Seq r1 r2) = min_len r1 + min_len r2"
| "min_len (Alt r1 r2) = min (min_len r1) (min_len r2)"
| "min_len (Star r) = 0"
| "min_len (LStar r) = 0"
| "min_len (Grp k r) = min_len r"
| "min_len (Look r) = 0"

lemma lang_min_len: "u \<in> lang fl r \<Longrightarrow> min_len r \<le> length u"
  by (induction r arbitrary: u) (auto simp: min_def, fastforce+)

lemma rmatch_progress:
  assumes "(p', s', g') \<in> set (rmatch fl r (p, s, g))" "0 < min_len r"
  shows "p < p'"
proof -
  from rmatch_shape[OF assms(1)] obtain w where w: "s = w @ s'" "p' = p + length w" by blast
  from rmatch_sound[OF assms(1)] obtain u where u: "s = u @ s'" "u \<in> lang fl r" by blast
  from w u have "w = u" by simp
  with lang_min_len[OF u(2)] assms(2) w show ?thesis by (cases u) auto
qed

lemma scan_ordered:
  "(\<forall>m \<in> set (scan fl r adv p s). p \<le> m_start m \<and> m_start m \<le> m_end m)
   \<and> sorted_wrt (\<lambda>a b. m_end a \<le> m_start b) (scan fl r adv p s)"
proof (induction fl r adv p s rule: scan.induct)
  case (1 fl r adv p s)
  show ?case
  proof (cases "if adv then search_adv fl r p s else search_from fl r p s")
    case None
    then show ?thesis by (subst scan.simps, subst scan.simps) simp
  next
    case (Some x)
    obtain b e s' g where x: "x = (b, e, s', g)" by (cases x) auto
    have "\<exists>u w. s = u @ w @ s' \<and> b = p + length u \<and> e = b + length w"
    proof (cases adv)
      case True
      with Some x have "search_adv fl r p s = Some (b, e, s', g)" by simp
      from search_adv_shape[OF this] show ?thesis by blast
    next
      case False
      with Some x have "search_from fl r p s = Some (b, e, s', g)" by simp
      from search_from_shape[OF this] show ?thesis by blast
    qed
    then have be: "p \<le> b" "b \<le> e" by auto
    have eq: "scan fl r adv p s = Match b e g # scan fl r (e = b) e s'"
      using Some x by (subst scan.simps) simp
    from 1(1)[OF Some[unfolded x] refl refl refl]
    have ih: "\<forall>m \<in> set (scan fl r (e = b) e s'). e \<le> m_start m \<and> m_start m \<le> m_end m"
      "sorted_wrt (\<lambda>a b. m_end a \<le> m_start b) (scan fl r (e = b) e s')" by auto
    show ?thesis unfolding eq using be ih by auto
  qed
qed

lemma re_finditer_ordered:
  "sorted_wrt (\<lambda>a b. m_end a \<le> m_start b) (re_finditer fl r text)"
  using scan_ordered[of fl r False 0 "text"] by (simp add: re_finditer_def)

lemma is_match_nonempty:
  "is_match fl r text m \<Longrightarrow> 0 < min_len r \<Longrightarrow> m_start m < m_end m"
  by (auto simp: is_match_def dest: rmatch_progress)

subsection \<open>Runs of one character class\<close>

lemma digit_not_cased: "py_isdigit (lower_char c) = py_isdigit c" "py_isdigit (upper_char c) = py_isdigit c"
  by (auto simp: py_isdigit_def code_lower code_upper py_isupper_def py_islower_def)

lemma sym_ok_Digit [simp]: "sym_ok fl [Digit] c = py_isdigit c"
  by (auto simp: sym_ok_def digit_not_cased)

lemma lang_Star_Sym: "u \<in> lang fl (Star (Sym its)) \<longleftrightarrow> (\<forall>c \<in> set u. sym_ok fl its c)"
proof
  assume "u \<in> lang fl (Star (Sym its))"
  then obtain ws where ws: "u = concat ws" "set ws \<subseteq> lang fl (Sym its)" by auto
  show "\<forall>c \<in> set u. sym_ok fl its c"
  proof
    fix c assume "c \<in> set u"
    with ws(1) obtain w where w: "w \<in> set ws" "c \<in> set w" by auto
    with ws(2) have "w \<in> lang fl (Sym its)" by blast
    then obtain c' where "w = [c']" "sym_ok fl its c'" by auto
    with w(2) show "sym_ok fl its c" by simp
  qed
next
  assume a: "\<forall>c \<in> set u. sym_ok fl its c"
  have c: "u = concat (map (\<lambda>c. [c]) u)" by (induction u) auto
  have s: "set (map (\<lambda>c. [c]) u) \<subseteq> lang fl (Sym its)" using a by auto
  have "concat (map (\<lambda>c. [c]) u) \<in> lang fl (Star (Sym its))"
    unfolding lang.simps(7) using s by blast
  with c show "u \<in> lang fl (Star (Sym its))" by simp
qed

lemma lang_Plus_Sym:
  "u \<in> lang fl (Plus (Sym its)) \<longleftrightarrow> u \<noteq> [] \<and> (\<forall>c \<in> set u. sym_ok fl its c)"
proof
  assume "u \<in> lang fl (Plus (Sym its))"
  then obtain a v where "u = a @ v" "a \<in> lang fl (Sym its)" "v \<in> lang fl (Star (Sym its))"
    unfolding Plus_def by (auto simp del: lang.simps(7))
  then show "u \<noteq> [] \<and> (\<forall>c \<in> set u. sym_ok fl its c)"
    unfolding lang_Star_Sym by auto
next
  assume a: "u \<noteq> [] \<and> (\<forall>c \<in> set u. sym_ok fl its c)"
  then obtain c v where u: "u = [c] @ v" by (cases u) auto
  with a have "[c] \<in> lang fl (Sym its)" "v \<in> lang fl (Star (Sym its))"
    unfolding lang_Star_Sym by auto
  then have "[c] @ v \<in> lang fl (Seq (Sym its) (Star (Sym its)))"
    unfolding lang.simps(5) by blast
  then show "u \<in> lang fl (Plus (Sym its))" by (simp only: u Plus_def)
qed

lemma rmatch_Star_Sym_Nil [simp]: "rmatch fl (Star (Sym its)) (p, [], g) = [(p, [], g)]"
  by (subst rmatch.simps(7)) simp

lemma rmatch_Star_Sym_Cons [simp]:
  "rmatch fl (Star (Sym its)) (p, c # cs, g) =
     (if sym_ok fl its c then rmatch fl (Star (Sym its)) (p + 1, cs, g) @ [(p, c # cs, g)]
      else [(p, c # cs, g)])"
  by (subst rmatch.simps(7)) (simp add: advances_def)

lemma star_run:
  "\<forall>c \<in> set ds. sym_ok fl its c \<Longrightarrow>
     (p + length ds, rest, g) \<in> set (rmatch fl (Star (Sym its)) (p, ds @ rest, g))"
proof (induction ds arbitrary: p)
  case Nil
  show ?case by (cases rest) auto
next
  case (Cons d ds)
  from Cons.IH[of "p + 1"] Cons.prems show ?case by simp
qed

section \<open>The blood pressure, \<open>int\<close> and the summary\<close>

text \<open>
  The group of the blood pressure pattern is digits, a slash, digits, and it is a piece of
  the text. So \<open>int\<close> is given a non-empty run of digits, which it refuses only for its
  length, and \<open>summarize_report\<close> has three outcomes: no blood pressure, a blood pressure
  whose systolic part exceeds the digit limit, and one that is compared with 140 and 90.
\<close>

lemma lower_of_upper_islower: "py_isupper c \<Longrightarrow> py_islower (lower_char c)"
  unfolding py_islower_def code_lower unfolding py_isupper_def by simp

lemma upper_of_lower_isupper: "py_islower c \<Longrightarrow> py_isupper (upper_char c)"
  unfolding py_isupper_def code_upper unfolding py_islower_def by simp arith

lemma sym_ok_Ch_uncased:
  assumes "\<not> py_isupper a" "\<not> py_islower a"
  shows "sym_ok fl [Ch a] c \<longleftrightarrow> c = a"
proof -
  have l: "c = a" if "lower_char c = a"
  proof (cases "py_isupper c")
    case True
    from lower_of_upper_islower[OF this] that assms(2) show ?thesis by simp
  next
    case False
    with that show ?thesis by (simp add: lower_char_def)
  qed
  have u: "c = a" if "upper_char c = a"
  proof (cases "py_islower c")
    case True
    from upper_of_lower_isupper[OF this] that assms(1) show ?thesis by simp
  next
    case False
    with that show ?thesis by (simp add: upper_char_def)
  qed
  show ?thesis using l u by (auto simp: sym_ok_def)
qed

lemma slash_uncased: "\<not> py_isupper CHR ''/''" "\<not> py_islower CHR ''/''" "\<not> py_isdigit CHR ''/''"
  by (simp_all add: py_isupper_def py_islower_def py_isdigit_def code_def)

lemma lang_bp_group:
  "u \<in> lang fl (Cat [Plus digit, Lit CHR ''/'', Plus digit]) \<Longrightarrow> bp_shape u"
proof -
  assume "u \<in> lang fl (Cat [Plus digit, Lit CHR ''/'', Plus digit])"
  then obtain d1 c d2 where "u = d1 @ [c] @ d2" "d1 \<in> lang fl (Plus (Sym [Digit]))"
    "sym_ok fl [Ch CHR ''/''] c" "d2 \<in> lang fl (Plus (Sym [Digit]))"
    by (auto simp: digit_def simp del: lang.simps(7))
  then show ?thesis
    unfolding lang_Plus_Sym bp_shape_def
    by (auto simp: sym_ok_Ch_uncased[OF slash_uncased(1,2)])
qed

lemma bp_group_shape:
  assumes "re_search re_I bp_pattern text = Some m"
  shows "bp_shape (group m 1)"
proof -
  have "\<forall>u \<in> lang re_I (Cat [Plus digit, Lit CHR ''/'', Plus digit]). bp_shape u"
    using lang_bp_group by blast
  then have caps: "caps_ok re_I (\<lambda>k u. k = 1 \<longrightarrow> bp_shape u) bp_pattern"
    by (simp add: bp_pattern_def del: lang_Cat_Cons lang_Cat_Nil lang_Lit lang.simps)
  have sets: "sets_group 1 bp_pattern" by (simp add: bp_pattern_def)
  from is_match_group[OF re_search_is_match[OF assms] caps sets] show ?thesis by simp
qed

lemma extract_bp:
  "extract_vital_signs self text ''Blood Pressure''
     = map_option (\<lambda>m. group m 1) (re_search re_I bp_pattern text)"
proof -
  have ne: "''Heart Rate'' \<noteq> ''Blood Pressure''" "''Temperature'' \<noteq> ''Blood Pressure''"
    "''Respiratory Rate'' \<noteq> ''Blood Pressure''" "''Oxygen Saturation'' \<noteq> ''Blood Pressure''"
    by simp_all
  show ?thesis
    unfolding extract_vital_signs_def Let_def
    by (cases "re_search re_I bp_pattern text"; cases "re_search re_I hr_pattern text";
        cases "re_search re_I temp_pattern text"; cases "re_search re_I rr_pattern text";
        cases "re_search re_I o2_pattern text") (simp_all only: option.case fun_upd_apply ne ne[symmetric] if_False if_True refl option.map)
qed

lemma py_split_takeWhile:
  "\<exists>ws. py_split sep s = takeWhile (\<lambda>c. c \<noteq> sep) s # ws"
  by (induction s) (auto split: list.splits)

lemma py_in_single: "py_in [a] s \<longleftrightarrow> a \<in> set s"
  by (induction s) auto

lemma digit_not_int_space: "py_isdigit c \<Longrightarrow> \<not> int_isspace c"
  by (auto simp: py_isdigit_def int_isspace_def)

lemma digit_not_sign: "py_isdigit c \<Longrightarrow> c \<noteq> CHR ''+'' \<and> c \<noteq> CHR ''-'' \<and> c \<noteq> CHR ''_''"
  by (auto simp: py_isdigit_def code_def)

lemma digits_ok_digits: "\<forall>c \<in> set ds. py_isdigit c \<Longrightarrow> digits_ok b ds = (b \<or> ds \<noteq> [])"
  by (induction ds arbitrary: b) auto

lemma dropWhile_id: "s \<noteq> [] \<Longrightarrow> \<not> P (hd s) \<Longrightarrow> dropWhile P s = s"
  by (cases s) auto

lemma py_int_digits:
  assumes "ds \<noteq> []" "\<forall>c \<in> set ds. py_isdigit c"
  shows "py_int interp ds =
           (if exceeds_limit interp (length ds) then Inl ValueError else Inr (digit_value ds))"
proof -
  have h: "\<not> int_isspace (hd ds)" "\<not> int_isspace (last ds)"
    using assms by (auto intro!: digit_not_int_space)
  have t: "rev (dropWhile int_isspace (rev (dropWhile int_isspace ds))) = ds"
    using assms(1) h by (simp add: dropWhile_id hd_rev)
  obtain c cs where ds: "ds = c # cs" using assms(1) by (cases ds) auto
  with assms(2) have c: "py_isdigit c" by simp
  have f: "filter py_isdigit ds = ds" using assms(2) by (simp add: filter_id_conv)
  have ok: "digits_ok False ds" using assms by (simp add: digits_ok_digits)
  have body: "(case ds of [] \<Rightarrow> [] | c # cs \<Rightarrow> if c = CHR ''+'' \<or> c = CHR ''-'' then cs else ds) = ds"
    using ds digit_not_sign[OF c] by simp
  have neg: "\<not> starts_with ''-'' ds"
    using ds digit_not_sign[OF c] by auto
  show ?thesis
    unfolding py_int_def t Let_def body f using ok neg by simp
qed

lemma identify_cases:
  "identify_critical_flags interp self text summary =
     (case vital_signs summary ''Blood Pressure'' of
        None \<Rightarrow> Inr (vocabulary_flags text)
      | Some bp \<Rightarrow>
          if CHR ''/'' \<in> set bp then
            (case py_int interp (systolic_of bp) of
               Inl e \<Rightarrow> Inl e
             | Inr systolic \<Rightarrow>
                 if systolic > 140 \<or> systolic < 90
                 then Inr (vocabulary_flags text @ [abnormal_bp_flag])
                 else Inr (vocabulary_flags text))
          else Inr (vocabulary_flags text))"
proof (cases "vital_signs summary ''Blood Pressure''")
  case None
  then show ?thesis by (simp add: identify_critical_flags_def vocabulary_flags_def)
next
  case (Some bp)
  obtain ws where ws: "py_split CHR ''/'' bp = systolic_of bp # ws"
    using py_split_takeWhile[of "CHR ''/''" bp] by (auto simp: systolic_of_def)
  show ?thesis
    unfolding identify_critical_flags_def Let_def Some vocabulary_flags_def[symmetric]
    by (simp add: py_in_single ws)
qed

lemma systolic_of_shape:
  assumes "bp_shape bp"
  shows "systolic_of bp \<noteq> []" "\<forall>c \<in> set (systolic_of bp). py_isdigit c" "CHR ''/'' \<in> set bp"
proof -
  from assms obtain d1 d2 where d: "bp = d1 @ CHR ''/'' # d2" "d1 \<noteq> []" "\<forall>c \<in> set d1. py_isdigit c"
    by (auto simp: bp_shape_def)
  have "\<forall>c \<in> set d1. c \<noteq> CHR ''/''" using d(3) slash_uncased(3) by auto
  then have "systolic_of bp = d1" unfolding systolic_of_def d(1) by (simp add: takeWhile_append2)
  with d show "systolic_of bp \<noteq> []" "\<forall>c \<in> set (systolic_of bp). py_isdigit c" "CHR ''/'' \<in> set bp"
    by simp_all
qed

lemma extracted_bp_shape:
  "extract_vital_signs self text ''Blood Pressure'' = Some bp \<Longrightarrow> bp_shape bp"
  unfolding extract_bp by (auto dest: bp_group_shape)

lemma identify_extracted:
  assumes "vital_signs summary = extract_vital_signs self text"
  shows "identify_critical_flags interp self' text' summary =
     (case extract_vital_signs self text ''Blood Pressure'' of
        None \<Rightarrow> Inr (vocabulary_flags text')
      | Some bp \<Rightarrow>
          if exceeds_limit interp (length (systolic_of bp)) then Inl ValueError
          else if digit_value (systolic_of bp) > 140 \<or> digit_value (systolic_of bp) < 90
               then Inr (vocabulary_flags text' @ [abnormal_bp_flag])
               else Inr (vocabulary_flags text'))"
proof (cases "extract_vital_signs self text ''Blood Pressure''")
  case None
  then show ?thesis unfolding identify_cases assms by simp
next
  case (Some bp)
  from systolic_of_shape[OF extracted_bp_shape[OF Some]]
  have s: "systolic_of bp \<noteq> []" "\<forall>c \<in> set (systolic_of bp). py_isdigit c" "CHR ''/'' \<in> set bp"
    by auto
  show ?thesis unfolding identify_cases assms Some using s(3)
    by (simp add: py_int_digits[OF s(1,2)])
qed

lemma summarize_report_cases:
  "summarize_report interp self text =
     (case extract_vital_signs self text ''Blood Pressure'' of
        None \<Rightarrow> Inr \<lparr>patient_info = extract_patient_info self text,
                     chief_complaint = extract_chief_complaint self text,
                     diagnosis = extract_diagnoses self text,
                     medications = extract_medications self text,
                     vital_signs = extract_vital_signs self text,
                     procedures = [], allergies = [],
                     lab_results = extract_lab_results self text,
                     recommendations = [], critical_flags = vocabulary_flags text\<rparr>
      | Some bp \<Rightarrow>
          if exceeds_limit interp (length (systolic_of bp)) then Inl ValueError
          else Inr \<lparr>patient_info = extract_patient_info self text,
                     chief_complaint = extract_chief_complaint self text,
                     diagnosis = extract_diagnoses self text,
                     medications = extract_medications self text,
                     vital_signs = extract_vital_signs self text,
                     procedures = [], allergies = [],
                     lab_results = extract_lab_results self text,
                     recommendations = [],
                     critical_flags = vocabulary_flags text @
                       (if digit_value (systolic_of bp) > 140 \<or> digit_value (systolic_of bp) < 90
                        then [abnormal_bp_flag] else [])\<rparr>)"
proof -
  define summary where "summary = \<lparr>patient_info = extract_patient_info self text,
                     chief_complaint = extract_chief_complaint self text,
                     diagnosis = extract_diagnoses self text,
                     medications = extract_medications self text,
                     vital_signs = extract_vital_signs self text,
                     procedures = [], allergies = [],
                     lab_results = extract_lab_results self text,
                     recommendations = [], critical_flags = []\<rparr>"
  have v: "vital_signs summary = extract_vital_signs self text" by (simp add: summary_def)
  have "summarize_report interp self text =
        (case identify_critical_flags interp self text summary of
           Inl e \<Rightarrow> Inl e | Inr flags \<Rightarrow> Inr (summary\<lparr>critical_flags := flags\<rparr>))"
    unfolding summarize_report_def Let_def summary_def by (rule refl)
  then show ?thesis
    unfolding identify_extracted[OF v]
    by (simp add: summary_def split: option.splits)
qed

lemma star_replicate:
  "sym_ok fl its c \<Longrightarrow>
     rmatch fl (Star (Sym its)) (p, replicate n c @ rest, g)
       = rmatch fl (Star (Sym its)) (p + n, rest, g)
           @ map (\<lambda>k. (p + k, replicate (n - k) c @ rest, g)) (rev [0..<n])"
proof (induction n arbitrary: p)
  case 0
  then show ?case by simp
next
  case (Suc n)
  have "map (\<lambda>k. (p + 1 + k, replicate (n - k) c @ rest, g)) (rev [0..<n])
        = map (\<lambda>k. (p + k, replicate (Suc n - k) c @ rest, g)) (rev [1..<Suc n])"
    by (simp add: rev_map[symmetric] map_Suc_upt[symmetric] del: upt_Suc)
  moreover have "rev [0..<Suc n] = rev [1..<Suc n] @ [0]"
    by (simp add: upt_rec[of 0] del: upt_Suc)
  ultimately show ?case using Suc.prems Suc.IH[OF Suc.prems, of "p + 1"]
    by (simp del: upt_Suc)
qed

lemma bp_long_systolic:
  "re_search re_I bp_pattern (''BP: 1'' @ replicate n CHR ''1'' @ ''/80'')
     = Some (Match 0 (n + 8) [1 \<mapsto> CHR ''1'' # replicate n CHR ''1'' @ ''/80''])"
proof -
  have ic: "ignorecase re_I" by (simp add: re_I_def)
  have d: "sym_ok re_I [Digit] CHR ''1''" by (simp add: py_isdigit_def code_def)
  have nd: "\<not> py_isdigit CHR ''/''" by (simp add: py_isdigit_def code_def)
  have run: "rmatch re_I (Star (Sym [Digit])) (p, replicate n CHR ''1'' @ ''/80'', g)
        = (p + n, ''/80'', g) # map (\<lambda>k. (p + k, replicate (n - k) CHR ''1'' @ ''/80'', g)) (rev [0..<n])"
    for p g
    unfolding star_replicate[OF d] by (simp add: nd)
  have tk: "take (n + 4) (CHR ''1'' # replicate n CHR ''1'' @ ''/80'') = CHR ''1'' # replicate n CHR ''1'' @ ''/80''"
    by simp
  show ?thesis
    unfolding re_search_def to_match_def
    by (simp add: bp_pattern_def Cat_def Str_def Lit_def Plus_def colon_space_def digit_def
        run sym_ok_def ic py_isspace_def py_isdigit_def code_def
        lower_char_def upper_char_def py_isupper_def py_islower_def char_of_def bit_0 bit_Suc
        del: sym_ok_Digit)
qed

lemma is_match_heading_group:
  assumes "is_match fl (Cat [A, B, Grp k X]) text m"
  shows "\<exists>pre h sep post. text = pre @ h @ sep @ group m k @ post
           \<and> h \<in> lang fl A \<and> sep \<in> lang fl B \<and> group m k \<in> lang fl X"
proof -
  from assms obtain s' where
    a: "(m_end m, s', m_groups m)
          \<in> set (rmatch fl (Seq A (Seq B (Seq (Grp k X) Eps))) (m_start m, drop (m_start m) text, Map.empty))"
    by (auto simp: is_match_def Cat_def)
  then obtain p1 s1 g1 p2 s2 g2 where
    r1: "(p1, s1, g1) \<in> set (rmatch fl A (m_start m, drop (m_start m) text, Map.empty))" and
    r2: "(p2, s2, g2) \<in> set (rmatch fl B (p1, s1, g1))" and
    r3: "(m_end m, s', m_groups m) \<in> set (rmatch fl (Grp k X) (p2, s2, g2))"
    by auto
  from r3 obtain g3 where
    r4: "(m_end m, s', g3) \<in> set (rmatch fl X (p2, s2, g2))" and
    g: "m_groups m = g3(k \<mapsto> take (m_end m - p2) s2)"
    by auto
  from rmatch_shape[OF r4] obtain w where w: "s2 = w @ s'" "m_end m = p2 + length w" by blast
  from rmatch_sound[OF r4] obtain w' where w': "s2 = w' @ s'" "w' \<in> lang fl X" by blast
  from w w' have ww: "w' = w" by simp
  from g w have grp: "group m k = w" by (simp add: group_def)
  from rmatch_sound[OF r1] obtain h where h: "drop (m_start m) text = h @ s1" "h \<in> lang fl A" by blast
  from rmatch_sound[OF r2] obtain sep where sep: "s1 = sep @ s2" "sep \<in> lang fl B" by blast
  have "text = take (m_start m) text @ drop (m_start m) text" by simp
  also have "\<dots> = take (m_start m) text @ h @ sep @ w @ s'" using h sep w by simp
  finally have "text = take (m_start m) text @ h @ sep @ group m k @ s'" using grp by simp
  then show ?thesis using h(2) sep(2) w'(2) ww grp by blast
qed

lemma extracted_bp_in_text:
  assumes "extract_vital_signs self text ''Blood Pressure'' = Some bp"
  shows "\<exists>pre post. text = pre @ bp @ post"
proof -
  from assms obtain m where m: "re_search re_I bp_pattern text = Some m" "bp = group m 1"
    unfolding extract_bp by auto
  from re_search_is_match[OF m(1)]
  have "is_match re_I (Cat [Str ''BP'', Plus colon_space, Grp 1 (Cat [Plus digit, Lit CHR ''/'', Plus digit])]) text m"
    by (simp add: bp_pattern_def)
  from is_match_heading_group[OF this] obtain pre h sep post where
    "text = pre @ h @ sep @ group m 1 @ post" by blast
  then have "text = (pre @ h @ sep) @ bp @ post" using m(2) by simp
  then show ?thesis by blast
qed

lemma systolic_length_le:
  assumes "extract_vital_signs self text ''Blood Pressure'' = Some bp"
  shows "length (systolic_of bp) \<le> length text"
proof -
  from extracted_bp_in_text[OF assms] obtain pre post where "text = pre @ bp @ post" by blast
  then have "length bp \<le> length text" by simp
  moreover have "length (systolic_of bp) \<le> length bp"
    unfolding systolic_of_def by (rule length_takeWhile_le)
  ultimately show ?thesis by simp
qed

lemma extractors_ignore_self:
  "extract_patient_info self1 text = extract_patient_info self2 text"
  "extract_chief_complaint self1 text = extract_chief_complaint self2 text"
  "extract_diagnoses self1 text = extract_diagnoses self2 text"
  "extract_medications self1 text = extract_medications self2 text"
  "extract_vital_signs self1 text = extract_vital_signs self2 text"
  "extract_lab_results self1 text = extract_lab_results self2 text"
  unfolding extract_patient_info_def extract_chief_complaint_def extract_diagnoses_def
    clean_diagnosis_text_def extract_medications_def extract_vital_signs_def
    extract_lab_results_def by (rule refl)+

lemma empty_report_searches:
  "re_search re_I bp_pattern [] = None"
  "re_search re_I hr_pattern [] = None"
  "re_search re_I temp_pattern [] = None"
  "re_search re_I rr_pattern [] = None"
  "re_search re_I o2_pattern [] = None"
  by code_simp+

lemma empty_report_vital_signs: "extract_vital_signs self [] = Map.empty"
  unfolding extract_vital_signs_def Let_def empty_report_searches by simp

lemma empty_report_fields:
  "extract_patient_info self [] = \<lparr>name = [], age = [], gender = [], mrn = [], dob = []\<rparr>"
  "extract_chief_complaint self [] = []"
  "extract_diagnoses self [] = []"
  "extract_medications self [] = []"
  "extract_lab_results self [] = []"
  by code_simp+

lemma vocabulary_flags_empty: "vocabulary_flags [] = []"
  unfolding vocabulary_flags_def by code_simp

lemma summarize_empty_report:
  "summarize_report interp self [] =
     Inr \<lparr>patient_info = \<lparr>name = [], age = [], gender = [], mrn = [], dob = []\<rparr>,
          chief_complaint = [], diagnosis = [], medications = [], vital_signs = Map.empty,
          procedures = [], allergies = [], lab_results = [], recommendations = [],
          critical_flags = []\<rparr>"
  unfolding summarize_report_cases empty_report_vital_signs empty_report_fields vocabulary_flags_empty
  by simp

lemma long_systolic_extracted:
  "extract_vital_signs self (''BP: 1'' @ replicate n CHR ''1'' @ ''/80'') ''Blood Pressure''
     = Some (CHR ''1'' # replicate n CHR ''1'' @ ''/80'')"
  unfolding extract_bp bp_long_systolic by (simp add: group_def)

lemma long_systolic_of:
  "systolic_of (CHR ''1'' # replicate n CHR ''1'' @ ''/80'') = CHR ''1'' # replicate n CHR ''1''"
proof -
  have "takeWhile (\<lambda>c. c \<noteq> CHR ''/'') (replicate n CHR ''1'' @ ''/80'') = replicate n CHR ''1''"
    by (induction n) simp_all
  then show ?thesis unfolding systolic_of_def by simp
qed

lemma long_systolic_report:
  "summarize_report interp self (''BP: 1'' @ replicate n CHR ''1'' @ ''/80'') = Inl ValueError
     \<longleftrightarrow> exceeds_limit interp (Suc n)"
  unfolding summarize_report_cases long_systolic_extracted by (simp add: long_systolic_of)

section \<open>The caps on the diagnosis and medication lists\<close>

text \<open>
  Claim C6. For every input text the list that \<open>extract_diagnoses\<close> returns has at most
  10 entries and the list that \<open>extract_medications\<close> returns has at most 15, however
  many candidates the section holds: both functions end with a slice of their list.
\<close>

theorem extract_lists_capped:
  "length (extract_diagnoses self text) \<le> 10 \<and> length (extract_medications self text) \<le> 15"
  by (simp add: extract_diagnoses_def extract_medications_def Let_def)

section \<open>The gender field\<close>

lemma lower_names:
  "py_lower ''Male'' = ''male''" "py_lower ''Female'' = ''female''"
  "py_lower ''M'' = ''m''" "py_lower ''F'' = ''f''"
  by (simp_all add: py_lower_def lower_char_def py_isupper_def code_def char_of_def bit_0 bit_Suc)

lemma space_not_cased:
  "py_isspace (lower_char c) = py_isspace c" "py_isspace (upper_char c) = py_isspace c"
  by (auto simp: py_isspace_def code_lower code_upper py_isupper_def py_islower_def)

lemma colon_uncased: "\<not> py_isupper CHR '':''" "\<not> py_islower CHR '':''"
  by (simp_all add: py_isupper_def py_islower_def code_def)

lemma sym_ok_colon_space:
  "sym_ok fl [Ch CHR '':'', Space] c \<longleftrightarrow> c = CHR '':'' \<or> py_isspace c"
proof -
  have "sym_ok fl [Ch CHR '':'', Space] c \<longleftrightarrow> sym_ok fl [Ch CHR '':''] c \<or> sym_ok fl [Space] c"
    by (auto simp: sym_ok_def)
  moreover have "sym_ok fl [Space] c \<longleftrightarrow> py_isspace c"
    by (auto simp: sym_ok_def space_not_cased)
  ultimately show ?thesis
    by (simp add: sym_ok_Ch_uncased[OF colon_uncased])
qed

lemma lang_heading_separator:
  "sep \<in> lang fl (Plus colon_space) \<longleftrightarrow> sep \<noteq> [] \<and> (\<forall>c \<in> set sep. c = CHR '':'' \<or> py_isspace c)"
  unfolding colon_space_def lang_Plus_Sym sym_ok_colon_space by (rule refl)

lemma lower_headings:
  "py_lower ''Gender'' = ''gender''" "py_lower ''Sex'' = ''sex''"
  by (simp_all add: py_lower_def lower_char_def py_isupper_def code_def char_of_def bit_0 bit_Suc)

lemma lang_gender_heading:
  "h \<in> lang fl (Alts [Str ''Gender'', Str ''Sex'']) \<Longrightarrow> py_lower h \<in> {''gender'', ''sex''}"
  by (auto simp: lower_headings dest!: lang_Str_lower)

lemma lang_gender_value:
  "u \<in> lang fl (Alts [Str ''Male'', Str ''Female'', Str ''M'', Str ''F''])
     \<Longrightarrow> py_lower u \<in> {''male'', ''female'', ''m'', ''f''}"
  by (auto simp: lower_names dest!: lang_Str_lower)

text \<open>
  Claim C7, as amended. For every input text the gender that \<open>extract_patient_info\<close>
  returns is the empty string, or it is a piece of the text itself, unchanged, that reads
  Male, Female, M or F in some letter case and that follows, in the text, the word Gender or
  Sex in some letter case and one or more colons or white-space characters.
\<close>

theorem gender_is_matched_text:
  "gender (extract_patient_info self text) = []
   \<or> (py_lower (gender (extract_patient_info self text)) \<in> {''male'', ''female'', ''m'', ''f''}
      \<and> (\<exists>pre h sep post.
            text = pre @ h @ sep @ gender (extract_patient_info self text) @ post
            \<and> py_lower h \<in> {''gender'', ''sex''}
            \<and> sep \<noteq> [] \<and> (\<forall>c \<in> set sep. c = CHR '':'' \<or> py_isspace c)))"
proof (cases "re_search re_I gender_pattern text")
  case None
  then show ?thesis by (simp add: extract_patient_info_def Let_def split: option.splits)
next
  case (Some m)
  have g: "gender (extract_patient_info self text) = group m 1"
    using Some by (simp add: extract_patient_info_def Let_def split: option.splits)
  from re_search_is_match[OF Some]
  have "is_match re_I (Cat [Alts [Str ''Gender'', Str ''Sex''], Plus colon_space,
          Grp 1 (Alts [Str ''Male'', Str ''Female'', Str ''M'', Str ''F''])]) text m"
    by (simp add: gender_pattern_def)
  from is_match_heading_group[OF this] obtain pre h sep post where
    t: "text = pre @ h @ sep @ group m 1 @ post" and
    h: "h \<in> lang re_I (Alts [Str ''Gender'', Str ''Sex''])" and
    s: "sep \<in> lang re_I (Plus colon_space)" and
    v: "group m 1 \<in> lang re_I (Alts [Str ''Male'', Str ''Female'', Str ''M'', Str ''F''])"
    by blast
  from s have s': "sep \<noteq> []" "\<forall>c \<in> set sep. c = CHR '':'' \<or> py_isspace c"
    unfolding lang_heading_separator by simp_all
  from t lang_gender_heading[OF h] s' lang_gender_value[OF v] show ?thesis
    unfolding g by blast
qed

lemma gender_example:
  "gender (extract_patient_info \<lparr>nlp = None, summarizer = None\<rparr> ''Sex: FEMALE'') = ''FEMALE''"
  by code_simp

theorem gender_is_matched_text_witness:
  "gender (extract_patient_info \<lparr>nlp = None, summarizer = None\<rparr> ''Sex: FEMALE'') = ''FEMALE''
   \<and> py_lower ''FEMALE'' \<in> {''male'', ''female'', ''m'', ''f''}
   \<and> (\<exists>pre h sep post. ''Sex: FEMALE'' = pre @ h @ sep @ ''FEMALE'' @ post
          \<and> py_lower h \<in> {''gender'', ''sex''} \<and> sep \<noteq> [])"
  using gender_is_matched_text[of "\<lparr>nlp = None, summarizer = None\<rparr>" "''Sex: FEMALE''"]
  unfolding gender_example by auto

text \<open>
  The claim as stated, exactly one of the four spellings, fails on \<open>Gender: male\<close>.
\<close>

theorem gender_lowercase_counterexample:
  "gender (extract_patient_info \<lparr>nlp = None, summarizer = None\<rparr> ''Gender: male'') = ''male''
   \<and> ''male'' \<notin> {[], ''Male'', ''Female'', ''M'', ''F''}"
  by code_simp


section \<open>The order of the laboratory results\<close>

definition analytes :: "string list list" where
  "analytes = [[''hemoglobin'', ''hgb''], [''wbc'', ''white blood cell''], [''glucose''],
               [''creatinine''], [''bun''], [''cholesterol'']]"

lemma lower_analytes:
  "py_lower ''Hemoglobin'' = ''hemoglobin''" "py_lower ''Hgb'' = ''hgb''"
  "py_lower ''WBC'' = ''wbc''" "py_lower ''White Blood Cell'' = ''white blood cell''"
  "py_lower ''Glucose'' = ''glucose''" "py_lower ''Creatinine'' = ''creatinine''"
  "py_lower ''BUN'' = ''bun''" "py_lower ''Cholesterol'' = ''cholesterol''"
  by (simp_all add: py_lower_def lower_char_def py_isupper_def code_def char_of_def bit_0 bit_Suc)

lemma caps_ok_number [simp]: "caps_ok fl Q number_pattern"
  by (simp add: number_pattern_def)

lemma lab_pattern_facts:
  assumes "i < 6"
  shows "0 < min_len (lab_patterns ! i)"
    and "sets_group 1 (lab_patterns ! i)"
    and "caps_ok re_I (\<lambda>k u. k = 1 \<longrightarrow> py_lower u \<in> set (analytes ! i)) (lab_patterns ! i)"
proof -
  from assms consider "i = 0" | "i = 1" | "i = 2" | "i = 3" | "i = 4" | "i = 5" by linarith
  then show "0 < min_len (lab_patterns ! i)"
    by cases (simp_all add: lab_patterns_def Cat_def Alts_def Str_def Lit_def Plus_def colon_space_def)
  from assms consider "i = 0" | "i = 1" | "i = 2" | "i = 3" | "i = 4" | "i = 5" by linarith
  then show "sets_group 1 (lab_patterns ! i)"
    by cases (simp_all add: lab_patterns_def)
  from assms consider "i = 0" | "i = 1" | "i = 2" | "i = 3" | "i = 4" | "i = 5" by linarith
  then show "caps_ok re_I (\<lambda>k u. k = 1 \<longrightarrow> py_lower u \<in> set (analytes ! i)) (lab_patterns ! i)"
    by cases (auto simp: lab_patterns_def analytes_def lower_analytes dest!: lang_Str_lower)
qed

text \<open>
  Claim C10. The list that \<open>extract_lab_results\<close> returns is ordered by the catalog of
  analytes: first the entries of every match of the Hemoglobin/Hgb pattern, then those
  of WBC/White Blood Cell, Glucose, Creatinine, BUN and Cholesterol. Within one analyte
  the entries follow the document: its matches lie one after the other in the text,
  none is empty, each is a match of that analyte's pattern at its position, and the
  name it shows is one of the analyte's names in some letter case. Across analytes the
  order is the catalog's, not the document's: the witness below has a Glucose value
  before an Hgb value in the text and after it in the list.
\<close>

theorem lab_results_catalog_order:
  "extract_lab_results self text =
     concat (map (\<lambda>i. map lab_entry (re_finditer re_I (lab_patterns ! i) text)) [0..<6])
   \<and> (\<forall>i<6. sorted_wrt (\<lambda>a b. m_end a \<le> m_start b) (re_finditer re_I (lab_patterns ! i) text)
        \<and> (\<forall>m \<in> set (re_finditer re_I (lab_patterns ! i) text).
              m_start m < m_end m \<and> is_match re_I (lab_patterns ! i) text m
              \<and> py_lower (group m 1) \<in> set (analytes ! i)))"
proof (intro conjI allI impI ballI)
  have len: "length lab_patterns = 6" by (simp add: lab_patterns_def)
  have "map (\<lambda>i. map lab_entry (re_finditer re_I (lab_patterns ! i) text)) [0..<length lab_patterns]
        = map (\<lambda>r. map lab_entry (re_finditer re_I r text)) lab_patterns"
    by (rule nth_equalityI) simp_all
  then show "extract_lab_results self text =
     concat (map (\<lambda>i. map lab_entry (re_finditer re_I (lab_patterns ! i) text)) [0..<6])"
    by (simp add: extract_lab_results_def len)
next
  fix i :: nat assume "i < 6"
  show "sorted_wrt (\<lambda>a b. m_end a \<le> m_start b) (re_finditer re_I (lab_patterns ! i) text)"
    by (rule re_finditer_ordered)
next
  fix i :: nat and m assume i: "i < 6" and m: "m \<in> set (re_finditer re_I (lab_patterns ! i) text)"
  from re_finditer_is_match[OF m] show im: "is_match re_I (lab_patterns ! i) text m" .
  from is_match_nonempty[OF im lab_pattern_facts(1)[OF i]] show "m_start m < m_end m" .
  from is_match_group[OF im lab_pattern_facts(3)[OF i] lab_pattern_facts(2)[OF i]]
  show "py_lower (group m 1) \<in> set (analytes ! i)" by simp
qed

lemma lab_example:
  "extract_lab_results \<lparr>nlp = None, summarizer = None\<rparr> ''Glucose: 100 Hgb: 12 glucose 7''
     = [''Hgb: 12'', ''Glucose: 100'', ''glucose: 7'']"
  "map m_start (re_finditer re_I (lab_patterns ! 2) ''Glucose: 100 Hgb: 12 glucose 7'') = [0, 21]"
  "map m_start (re_finditer re_I (lab_patterns ! 0) ''Glucose: 100 Hgb: 12 glucose 7'') = [13]"
  by code_simp+

theorem lab_results_catalog_order_witness:
  "extract_lab_results \<lparr>nlp = None, summarizer = None\<rparr> ''Glucose: 100 Hgb: 12 glucose 7''
     = [''Hgb: 12'', ''Glucose: 100'', ''glucose: 7'']
   \<and> map m_start (re_finditer re_I (lab_patterns ! 2) ''Glucose: 100 Hgb: 12 glucose 7'') = [0, 21]
   \<and> map m_start (re_finditer re_I (lab_patterns ! 0) ''Glucose: 100 Hgb: 12 glucose 7'') = [13]
   \<and> sorted_wrt (\<lambda>a b. m_end a \<le> m_start b)
        (re_finditer re_I (lab_patterns ! 2) ''Glucose: 100 Hgb: 12 glucose 7'')
   \<and> list_all (\<lambda>m. m_start m < m_end m \<and> py_lower (group m 1) \<in> set (analytes ! 2))
        (re_finditer re_I (lab_patterns ! 2) ''Glucose: 100 Hgb: 12 glucose 7'')"
proof -
  have two: "(2::nat) < 6" by simp
  from lab_results_catalog_order[of "\<lparr>nlp = None, summarizer = None\<rparr>" "''Glucose: 100 Hgb: 12 glucose 7''"]
  have all: "\<forall>i<6. sorted_wrt (\<lambda>a b. m_end a \<le> m_start b)
          (re_finditer re_I (lab_patterns ! i) ''Glucose: 100 Hgb: 12 glucose 7'')
        \<and> (\<forall>m \<in> set (re_finditer re_I (lab_patterns ! i) ''Glucose: 100 Hgb: 12 glucose 7'').
              m_start m < m_end m \<and> is_match re_I (lab_patterns ! i) ''Glucose: 100 Hgb: 12 glucose 7'' m
              \<and> py_lower (group m 1) \<in> set (analytes ! i))"
    by (rule conjunct2)
  from all[rule_format, OF two] show ?thesis
    using lab_example by (simp add: list_all_iff)
qed


section \<open>The lines of the medication section\<close>

text \<open>
  \<open>numbered line\<close>: the line starts with one or more digits and a period, which is what
  \<open>re.match(r'^\d+\.', line)\<close> tests (lemma \<open>re_match_numbered\<close>).
\<close>

definition numbered :: "string \<Rightarrow> bool" where
  "numbered line =
     (takeWhile py_isdigit line \<noteq> []
      \<and> (case dropWhile py_isdigit line of [] \<Rightarrow> False | c # _ \<Rightarrow> c = CHR ''.''))"

lemma dot_not_digit: "\<not> py_isdigit CHR ''.''"
  by (simp add: py_isdigit_def code_def)

lemma numbered_iff:
  "numbered line \<longleftrightarrow> (\<exists>ds rest. ds \<noteq> [] \<and> (\<forall>c \<in> set ds. py_isdigit c) \<and> line = ds @ CHR ''.'' # rest)"
proof
  assume n: "numbered line"
  then obtain rest where "dropWhile py_isdigit line = CHR ''.'' # rest"
    by (auto simp: numbered_def split: list.splits)
  then have "line = takeWhile py_isdigit line @ CHR ''.'' # rest"
    by (metis takeWhile_dropWhile_id)
  moreover have "\<forall>c \<in> set (takeWhile py_isdigit line). py_isdigit c"
    by (auto dest: set_takeWhileD)
  ultimately show "\<exists>ds rest. ds \<noteq> [] \<and> (\<forall>c \<in> set ds. py_isdigit c) \<and> line = ds @ CHR ''.'' # rest"
    using n unfolding numbered_def by blast
next
  assume "\<exists>ds rest. ds \<noteq> [] \<and> (\<forall>c \<in> set ds. py_isdigit c) \<and> line = ds @ CHR ''.'' # rest"
  then obtain ds rest where d: "ds \<noteq> []" "\<forall>c \<in> set ds. py_isdigit c" "line = ds @ CHR ''.'' # rest"
    by blast
  then have "takeWhile py_isdigit line = ds" "dropWhile py_isdigit line = CHR ''.'' # rest"
    by (simp_all add: takeWhile_append2 dropWhile_append2 dot_not_digit)
  with d(1) show "numbered line" by (simp add: numbered_def)
qed

lemma lang_numbered_pattern:
  "u \<in> lang re_none numbered_pattern \<longleftrightarrow>
     (\<exists>ds. ds \<noteq> [] \<and> (\<forall>c \<in> set ds. py_isdigit c) \<and> u = ds @ ''.'')"
proof -
  have "u \<in> lang re_none numbered_pattern \<longleftrightarrow>
        (\<exists>ds. ds \<in> lang re_none (Plus (Sym [Digit])) \<and> u = ds @ ''.'')"
    by (auto simp: numbered_pattern_def digit_def sym_ok_Ch_exact re_none_def
        simp del: lang.simps(7))
  then show ?thesis unfolding lang_Plus_Sym by simp
qed

lemma re_match_numbered:
  "re_match re_none numbered_pattern line = None \<longleftrightarrow> \<not> numbered line"
proof -
  have "rmatch re_none numbered_pattern (0, line, Map.empty) \<noteq> [] \<longleftrightarrow> numbered line"
  proof
    assume "rmatch re_none numbered_pattern (0, line, Map.empty) \<noteq> []"
    then obtain e s' g where "(e, s', g) \<in> set (rmatch re_none numbered_pattern (0, line, Map.empty))"
      by (cases "rmatch re_none numbered_pattern (0, line, Map.empty)") auto
    from rmatch_sound[OF this] obtain u where u: "line = u @ s'" "u \<in> lang re_none numbered_pattern"
      by blast
    from u(2) obtain ds where "ds \<noteq> []" "\<forall>c \<in> set ds. py_isdigit c" "u = ds @ ''.''"
      unfolding lang_numbered_pattern by blast
    with u(1) have "ds \<noteq> [] \<and> (\<forall>c \<in> set ds. py_isdigit c) \<and> line = ds @ CHR ''.'' # s'"
      by simp
    then show "numbered line" unfolding numbered_iff by blast
  next
    assume "numbered line"
    then obtain ds0 rest where d0: "ds0 \<noteq> []" "\<forall>c \<in> set ds0. py_isdigit c"
      "line = ds0 @ CHR ''.'' # rest"
      unfolding numbered_iff by blast
    then obtain d ds where dd: "ds0 = d # ds" by (cases ds0) auto
    with d0 have d: "py_isdigit d" "\<forall>c \<in> set ds. py_isdigit c" "line = d # ds @ CHR ''.'' # rest"
      by simp_all
    have s1: "rmatch re_none numbered_pattern (0, line, Map.empty) =
        concat (map (rmatch re_none (Seq (Sym [Ch CHR ''.'']) Eps))
          (rmatch re_none (Star (Sym [Digit])) (1, ds @ CHR ''.'' # rest, Map.empty)))"
      using d(1,3) by (simp add: numbered_pattern_def Cat_def Plus_def Lit_def digit_def)
    have s2: "(1 + length ds, CHR ''.'' # rest, Map.empty)
            \<in> set (rmatch re_none (Star (Sym [Digit])) (1, ds @ CHR ''.'' # rest, Map.empty))"
      by (rule star_run) (simp add: d(2))
    have s3: "rmatch re_none (Seq (Sym [Ch CHR ''.'']) Eps) (1 + length ds, CHR ''.'' # rest, Map.empty) \<noteq> []"
      by (simp add: sym_ok_def)
    show "rmatch re_none numbered_pattern (0, line, Map.empty) \<noteq> []"
      unfolding s1 using s2 s3 by (auto simp del: rmatch.simps)
  qed
  then show ?thesis by (auto simp: re_match_def split: list.splits)
qed

lemma medication_lines_filter:
  "medication_lines med_text =
     filter (\<lambda>line. line \<noteq> [] \<and> \<not> numbered line) (map py_strip (py_split nl med_text))"
  by (simp add: medication_lines_def re_match_numbered)

text \<open>
  Claim C8, as amended. When one of the section patterns matches, \<open>extract_medications\<close>
  returns the first 15 of: the dosage matches in the section, then the lines of the
  section, stripped of white space, that are not empty and do not start with a number and
  a period. It strips no numbering or bullet and tests no length: a numbered line is
  dropped whole, and any other line is in the list however short it is, unless the cap of
  15 cuts it off.
\<close>

theorem extract_medications_keeps_short_lines:
  "extract_medications self text =
     (case first_search re_I_S medication_patterns text of
        None \<Rightarrow> []
      | Some m \<Rightarrow>
          take 15 (re_findall re_none dosage_pattern (group m 1)
                   @ filter (\<lambda>line. line \<noteq> [] \<and> \<not> numbered line)
                       (map py_strip (py_split nl (group m 1)))))
   \<and> (\<forall>m line. first_search re_I_S medication_patterns text = Some m
          \<and> line \<in> set (py_split nl (group m 1))
          \<and> py_strip line \<noteq> [] \<and> \<not> numbered (py_strip line)
          \<and> length (re_findall re_none dosage_pattern (group m 1))
               + length (py_split nl (group m 1)) \<le> 15
        \<longrightarrow> py_strip line \<in> set (extract_medications self text))"
proof -
  have eq: "extract_medications self text =
     (case first_search re_I_S medication_patterns text of
        None \<Rightarrow> []
      | Some m \<Rightarrow>
          take 15 (re_findall re_none dosage_pattern (group m 1)
                   @ filter (\<lambda>line. line \<noteq> [] \<and> \<not> numbered line)
                       (map py_strip (py_split nl (group m 1)))))"
    unfolding extract_medications_def Let_def medication_lines_filter
    by (simp split: option.splits)
  have kept: "py_strip line \<in> set (extract_medications self text)"
    if m: "first_search re_I_S medication_patterns text = Some m"
      and l: "line \<in> set (py_split nl (group m 1))"
      and k: "py_strip line \<noteq> []" "\<not> numbered (py_strip line)"
      and c: "length (re_findall re_none dosage_pattern (group m 1))
               + length (py_split nl (group m 1)) \<le> 15"
    for m line
  proof -
    let ?lines = "filter (\<lambda>line. line \<noteq> [] \<and> \<not> numbered line)
                       (map py_strip (py_split nl (group m 1)))"
    have "length ?lines \<le> length (map py_strip (py_split nl (group m 1)))"
      by (rule length_filter_le)
    then have "length ?lines \<le> length (py_split nl (group m 1))"
      by (simp only: length_map)
    moreover have "length (re_findall re_none dosage_pattern (group m 1) @ ?lines)
        = length (re_findall re_none dosage_pattern (group m 1)) + length ?lines"
      by (rule length_append)
    ultimately have "length (re_findall re_none dosage_pattern (group m 1) @ ?lines) \<le> 15"
      using c by linarith
    then have "extract_medications self text = re_findall re_none dosage_pattern (group m 1) @ ?lines"
      unfolding eq m by simp
    moreover have "py_strip line \<in> set ?lines" using l k by auto
    ultimately show ?thesis by simp
  qed
  from eq kept show ?thesis by blast
qed

lemma short_section_search:
  "map_option (\<lambda>m. group m 1) (first_search re_I_S medication_patterns (''Medications: ASA'' @ [nl, nl]))
     = Some ''ASA''"
  by code_simp

lemma short_section_pieces:
  "py_split nl ''ASA'' = [''ASA'']"
  "re_findall re_none dosage_pattern ''ASA'' = []"
  "py_strip ''ASA'' = ''ASA''"
  "numbered ''ASA'' = False"
  by code_simp+

theorem extract_medications_keeps_short_lines_witness:
  "map_option (\<lambda>m. group m 1) (first_search re_I_S medication_patterns (''Medications: ASA'' @ [nl, nl]))
     = Some ''ASA''
   \<and> ''ASA'' \<in> set (extract_medications \<lparr>nlp = None, summarizer = None\<rparr> (''Medications: ASA'' @ [nl, nl]))"
proof -
  from short_section_search obtain m where
    m: "first_search re_I_S medication_patterns (''Medications: ASA'' @ [nl, nl]) = Some m"
       "group m 1 = ''ASA''"
    by auto
  have "''ASA'' \<in> set (py_split nl (group m 1))"
    "py_strip ''ASA'' \<noteq> []" "\<not> numbered (py_strip ''ASA'')"
    "length (re_findall re_none dosage_pattern (group m 1))
       + length (py_split nl (group m 1)) \<le> 15"
    unfolding m(2) short_section_pieces by simp_all
  with m(1)
    extract_medications_keeps_short_lines
      [of "\<lparr>nlp = None, summarizer = None\<rparr>" "''Medications: ASA'' @ [nl, nl]"]
  have "py_strip ''ASA'' \<in> set (extract_medications \<lparr>nlp = None, summarizer = None\<rparr>
           (''Medications: ASA'' @ [nl, nl]))"
    by blast
  then show ?thesis using short_section_search unfolding short_section_pieces by simp
qed

text \<open>
  The claim as stated, no candidate shorter than 5 characters, fails on a section whose
  only line is \<open>ASA\<close>.
\<close>

theorem medication_short_line_counterexample:
  "extract_medications \<lparr>nlp = None, summarizer = None\<rparr> (''Medications: ASA'' @ [nl, nl]) = [''ASA'']
   \<and> length ''ASA'' < 5"
  by code_simp


section \<open>The exclusion rule of diagnosis cleaning\<close>

text \<open>
  Names for the values that the loop body \<open>clean_item\<close> computes from a piece \<open>raw\<close> of the
  split text: the candidate, stripped of white space, numbering and bullet; whether its
  lower-case form contains a word of the exclusion vocabulary, or of the inclusion
  vocabulary (the medical indicators); and its diagnosis part, the text before the first
  management note.
\<close>

definition candidate :: "string \<Rightarrow> string" where
  "candidate raw = strip_markup (py_strip raw)"

definition has_exclusion_term :: "string \<Rightarrow> bool" where
  "has_exclusion_term raw = (\<exists>exclude \<in> set exclude_words. py_in exclude (py_lower (candidate raw)))"

definition has_inclusion_term :: "string \<Rightarrow> bool" where
  "has_inclusion_term raw = (\<exists>med \<in> set medical_indicators. py_in med (py_lower (candidate raw)))"

definition diagnosis_part :: "string \<Rightarrow> string" where
  "diagnosis_part raw =
     py_strip (case re_split re_none management_pattern (candidate raw) of [] \<Rightarrow> [] | w # _ \<Rightarrow> w)"

lemma clean_item_cases:
  "clean_item raw =
     (if 5 \<le> length (py_strip raw) \<and> (has_exclusion_term raw \<longrightarrow> has_inclusion_term raw)
         \<and> 3 < length (diagnosis_part raw)
      then Some (diagnosis_part raw) else None)"
  unfolding clean_item_def Let_def has_exclusion_term_def has_inclusion_term_def
    diagnosis_part_def candidate_def
  by auto

lemma map_filter_cases:
  "List.map_filter (\<lambda>x. if P x then Some (f x) else None) xs = map f (filter P xs)"
  by (induction xs) (simp_all add: List.map_filter_simps)

lemma block_split:
  "re_split re_none item_split_pattern (''1. Acute coronary syndrome'' @ [nl] @ ''2. Medication adjustment'')
       = [''1. Acute coronary syndrome'', '' Medication adjustment'']"
  by code_simp

lemma block_items:
  "clean_item ''1. Acute coronary syndrome'' = Some ''Acute coronary syndrome''"
  "clean_item '' Medication adjustment'' = None"
  by code_simp+

text \<open>
  Claim C4, as amended. \<open>clean_diagnosis_text\<close> returns, in the order of the text, the
  diagnosis parts of the candidates that pass three tests: at least 5 characters after
  stripping white space; no word of the exclusion vocabulary, or else a word of the
  inclusion vocabulary too; a diagnosis part of more than 3 characters. So a candidate with
  an exclusion term and no inclusion term is dropped; one with both is not dropped by that
  rule, but still by the two tests of length. For the block \<open>1. Acute coronary syndrome\<close>,
  newline, \<open>2. Medication adjustment\<close> the cleaned list is \<open>Acute coronary syndrome\<close> alone.
\<close>

theorem clean_diagnosis_text_rule:
  "clean_diagnosis_text self text =
     map diagnosis_part
       (filter (\<lambda>raw. 5 \<le> length (py_strip raw)
                  \<and> (has_exclusion_term raw \<longrightarrow> has_inclusion_term raw)
                  \<and> 3 < length (diagnosis_part raw))
          (re_split re_none item_split_pattern text))
   \<and> clean_diagnosis_text self (''1. Acute coronary syndrome'' @ [nl] @ ''2. Medication adjustment'')
       = [''Acute coronary syndrome'']"
proof
  have ci: "clean_item = (\<lambda>raw. if 5 \<le> length (py_strip raw)
                  \<and> (has_exclusion_term raw \<longrightarrow> has_inclusion_term raw)
                  \<and> 3 < length (diagnosis_part raw) then Some (diagnosis_part raw) else None)"
    by (rule ext) (rule clean_item_cases)
  show "clean_diagnosis_text self text =
     map diagnosis_part
       (filter (\<lambda>raw. 5 \<le> length (py_strip raw)
                  \<and> (has_exclusion_term raw \<longrightarrow> has_inclusion_term raw)
                  \<and> 3 < length (diagnosis_part raw))
          (re_split re_none item_split_pattern text))"
    unfolding clean_diagnosis_text_def ci by (rule map_filter_cases)
next
  show "clean_diagnosis_text self (''1. Acute coronary syndrome'' @ [nl] @ ''2. Medication adjustment'')
       = [''Acute coronary syndrome'']"
    unfolding clean_diagnosis_text_def block_split by (simp add: List.map_filter_simps block_items)
qed

lemma both_vocabularies_split:
  "re_split re_none item_split_pattern
     (''1. Hypertension - well controlled'' @ [nl] @ ''2. Medication adjustment'')
       = [''1. Hypertension - well controlled'', '' Medication adjustment'']"
  by code_simp

lemma both_vocabularies_items:
  "has_exclusion_term ''1. Hypertension - well controlled''"
  "has_inclusion_term ''1. Hypertension - well controlled''"
  "diagnosis_part ''1. Hypertension - well controlled'' = ''Hypertension - well controlled''"
  "py_strip ''1. Hypertension - well controlled'' = ''1. Hypertension - well controlled''"
  "has_exclusion_term '' Medication adjustment''"
  "\<not> has_inclusion_term '' Medication adjustment''"
  by code_simp+

theorem clean_diagnosis_text_rule_witness:
  "has_exclusion_term ''1. Hypertension - well controlled''
   \<and> has_inclusion_term ''1. Hypertension - well controlled''
   \<and> has_exclusion_term '' Medication adjustment''
   \<and> \<not> has_inclusion_term '' Medication adjustment''
   \<and> clean_diagnosis_text \<lparr>nlp = None, summarizer = None\<rparr>
        (''1. Hypertension - well controlled'' @ [nl] @ ''2. Medication adjustment'')
       = [''Hypertension - well controlled'']"
  using clean_diagnosis_text_rule
    [of "\<lparr>nlp = None, summarizer = None\<rparr>"
        "''1. Hypertension - well controlled'' @ [nl] @ ''2. Medication adjustment''"]
  unfolding both_vocabularies_split
  by (simp add: both_vocabularies_items)

text \<open>
  The claim as stated, a candidate with an exclusion term is kept when it also has an
  inclusion term, fails on \<open>CHF - stable disease\<close>: it contains \<open>stable\<close> and \<open>disease\<close>, and
  it is dropped, because the diagnosis part \<open>CHF\<close> has only 3 characters.
\<close>

theorem both_vocabularies_dropped_counterexample:
  "clean_diagnosis_text \<lparr>nlp = None, summarizer = None\<rparr> ''CHF - stable disease'' = []
   \<and> ''stable'' \<in> set exclude_words \<and> py_in ''stable'' (py_lower ''CHF - stable disease'')
   \<and> ''disease'' \<in> set medical_indicators \<and> py_in ''disease'' (py_lower ''CHF - stable disease'')"
  by code_simp

section \<open>The result of \<open>summarize_report\<close>\<close>

text \<open>
  Claim C1, as amended. \<open>summarize_report\<close> raises ValueError exactly when the systolic part
  of the extracted blood pressure has more digits than the interpreter's limit allows;
  otherwise it returns a summary in which every field is set: six fields hold what the six
  extractors return, \<open>procedures\<close>, \<open>allergies\<close> and \<open>recommendations\<close> are empty lists.
  It always returns when the limit is switched off, and when the text is no longer than the
  limit or than 640 characters. On the empty text every field holds its empty default.
\<close>

theorem summarize_report_returns_within_digit_limit:
  "(if \<exists>bp. extract_vital_signs self text ''Blood Pressure'' = Some bp
            \<and> exceeds_limit interp (length (systolic_of bp))
    then summarize_report interp self text = Inl ValueError
    else \<exists>flags. summarize_report interp self text =
           Inr \<lparr>patient_info = extract_patient_info self text,
                chief_complaint = extract_chief_complaint self text,
                diagnosis = extract_diagnoses self text,
                medications = extract_medications self text,
                vital_signs = extract_vital_signs self text,
                procedures = [], allergies = [],
                lab_results = extract_lab_results self text,
                recommendations = [], critical_flags = flags\<rparr>)
   \<and> (int_max_str_digits interp = 0 \<or> length text \<le> int_max_str_digits interp \<or> length text \<le> 640
        \<longrightarrow> (\<exists>summary. summarize_report interp self text = Inr summary))
   \<and> summarize_report interp self [] =
         Inr \<lparr>patient_info = \<lparr>name = [], age = [], gender = [], mrn = [], dob = []\<rparr>,
              chief_complaint = [], diagnosis = [], medications = [], vital_signs = Map.empty,
              procedures = [], allergies = [], lab_results = [], recommendations = [],
              critical_flags = []\<rparr>"
proof (intro conjI)
  show "if \<exists>bp. extract_vital_signs self text ''Blood Pressure'' = Some bp
            \<and> exceeds_limit interp (length (systolic_of bp))
    then summarize_report interp self text = Inl ValueError
    else \<exists>flags. summarize_report interp self text =
           Inr \<lparr>patient_info = extract_patient_info self text,
                chief_complaint = extract_chief_complaint self text,
                diagnosis = extract_diagnoses self text,
                medications = extract_medications self text,
                vital_signs = extract_vital_signs self text,
                procedures = [], allergies = [],
                lab_results = extract_lab_results self text,
                recommendations = [], critical_flags = flags\<rparr>"
    unfolding summarize_report_cases
    by (cases "extract_vital_signs self text ''Blood Pressure''") simp_all
next
  show "int_max_str_digits interp = 0 \<or> length text \<le> int_max_str_digits interp \<or> length text \<le> 640
        \<longrightarrow> (\<exists>summary. summarize_report interp self text = Inr summary)"
  proof
    assume a: "int_max_str_digits interp = 0 \<or> length text \<le> int_max_str_digits interp \<or> length text \<le> 640"
    show "\<exists>summary. summarize_report interp self text = Inr summary"
    proof (cases "extract_vital_signs self text ''Blood Pressure''")
      case None
      then show ?thesis unfolding summarize_report_cases by simp
    next
      case (Some bp)
      from systolic_length_le[OF Some] a
      have "\<not> exceeds_limit interp (length (systolic_of bp))"
        by (auto simp: exceeds_limit_def str_digits_check_threshold_def)
      then show ?thesis unfolding summarize_report_cases Some by simp
    qed
  qed
next
  show "summarize_report interp self [] =
         Inr \<lparr>patient_info = \<lparr>name = [], age = [], gender = [], mrn = [], dob = []\<rparr>,
              chief_complaint = [], diagnosis = [], medications = [], vital_signs = Map.empty,
              procedures = [], allergies = [], lab_results = [], recommendations = [],
              critical_flags = []\<rparr>"
    by (rule summarize_empty_report)
qed

theorem summarize_report_returns_within_digit_limit_witness:
  "length ''BP: 150/95'' \<le> 640
   \<and> (\<exists>summary. summarize_report default_interpreter \<lparr>nlp = None, summarizer = None\<rparr> ''BP: 150/95''
          = Inr summary)"
  using summarize_report_returns_within_digit_limit
    [of "\<lparr>nlp = None, summarizer = None\<rparr>" "''BP: 150/95''" default_interpreter]
  by simp

theorem summarize_report_raises_counterexample:
  "summarize_report default_interpreter \<lparr>nlp = None, summarizer = None\<rparr>
     (''BP: 1'' @ replicate 4300 CHR ''1'' @ ''/80'') = Inl ValueError"
  unfolding long_systolic_report
  by (simp add: exceeds_limit_def default_interpreter_def str_digits_check_threshold_def)

section \<open>Determinism\<close>

text \<open>
  Claim C9, as amended. The summarizer object plays no part in the result, and two runs on
  the same text give the same result exactly when the interpreter's digit limit treats the
  systolic part of the extracted blood pressure alike in both: always when the two runs see
  the same limit, and always when the text has at most 640 characters.
\<close>

theorem summarize_report_deterministic_for_equal_limits:
  "((summarize_report interp1 self1 text = summarize_report interp2 self2 text)
      \<longleftrightarrow> (\<forall>bp. extract_vital_signs self1 text ''Blood Pressure'' = Some bp \<longrightarrow>
              exceeds_limit interp1 (length (systolic_of bp))
                = exceeds_limit interp2 (length (systolic_of bp))))
   \<and> (int_max_str_digits interp1 = int_max_str_digits interp2 \<longrightarrow>
        summarize_report interp1 self1 text = summarize_report interp2 self2 text)
   \<and> (length text \<le> 640 \<longrightarrow>
        summarize_report interp1 self1 text = summarize_report interp2 self2 text)"
proof -
  have main: "(summarize_report interp1 self1 text = summarize_report interp2 self2 text)
      \<longleftrightarrow> (\<forall>bp. extract_vital_signs self1 text ''Blood Pressure'' = Some bp \<longrightarrow>
              exceeds_limit interp1 (length (systolic_of bp))
                = exceeds_limit interp2 (length (systolic_of bp)))"
    unfolding summarize_report_cases extractors_ignore_self[of self2 _ self1]
    by (cases "extract_vital_signs self1 text ''Blood Pressure''") auto
  have same: "int_max_str_digits interp1 = int_max_str_digits interp2 \<longrightarrow>
        summarize_report interp1 self1 text = summarize_report interp2 self2 text"
    unfolding main by (simp add: exceeds_limit_def)
  have short: "length text \<le> 640 \<longrightarrow>
        summarize_report interp1 self1 text = summarize_report interp2 self2 text"
  proof
    assume a: "length text \<le> 640"
    have "\<not> exceeds_limit interp (length (systolic_of bp))"
      if "extract_vital_signs self1 text ''Blood Pressure'' = Some bp" for bp interp
      using systolic_length_le[OF that] a
      by (simp add: exceeds_limit_def str_digits_check_threshold_def)
    then show "summarize_report interp1 self1 text = summarize_report interp2 self2 text"
      unfolding main by simp
  qed
  from main same short show ?thesis by blast
qed

theorem summarize_report_deterministic_for_equal_limits_witness:
  "length ''BP: 150/95'' \<le> 640
   \<and> summarize_report default_interpreter \<lparr>nlp = None, summarizer = None\<rparr> ''BP: 150/95''
       = summarize_report \<lparr>int_max_str_digits = 0\<rparr> \<lparr>nlp = None, summarizer = None\<rparr> ''BP: 150/95''"
  using summarize_report_deterministic_for_equal_limits
    [of default_interpreter "\<lparr>nlp = None, summarizer = None\<rparr>" "''BP: 150/95''"
        "\<lparr>int_max_str_digits = 0\<rparr>" "\<lparr>nlp = None, summarizer = None\<rparr>"]
  by simp

theorem summarize_report_limit_counterexample:
  "summarize_report default_interpreter \<lparr>nlp = None, summarizer = None\<rparr>
       (''BP: 1'' @ replicate 4999 CHR ''1'' @ ''/80'')
     \<noteq> summarize_report \<lparr>int_max_str_digits = 0\<rparr> \<lparr>nlp = None, summarizer = None\<rparr>
       (''BP: 1'' @ replicate 4999 CHR ''1'' @ ''/80'')"
proof -
  have a: "summarize_report default_interpreter \<lparr>nlp = None, summarizer = None\<rparr>
       (''BP: 1'' @ replicate 4999 CHR ''1'' @ ''/80'') = Inl ValueError"
    unfolding long_systolic_report
    by (simp add: exceeds_limit_def default_interpreter_def str_digits_check_threshold_def)
  have b: "summarize_report \<lparr>int_max_str_digits = 0\<rparr> \<lparr>nlp = None, summarizer = None\<rparr>
       (''BP: 1'' @ replicate 4999 CHR ''1'' @ ''/80'') \<noteq> Inl ValueError"
    unfolding long_systolic_report by (simp add: exceeds_limit_def)
  from a b show ?thesis by simp
qed

section \<open>A blood pressure that \<open>int\<close> refuses\<close>

lemma in_dropWhile: "c \<in> set s \<Longrightarrow> \<not> P c \<Longrightarrow> c \<in> set (dropWhile P s)"
  by (induction s) auto

lemma digits_ok_all: "digits_ok b body \<Longrightarrow> c \<in> set body \<Longrightarrow> py_isdigit c \<or> c = CHR ''_''"
  by (induction body arbitrary: b) (auto split: if_splits)

lemma py_int_rejects:
  assumes "c \<in> set s" "\<not> py_isdigit c" "\<not> int_isspace c"
    "c \<noteq> CHR ''+''" "c \<noteq> CHR ''-''" "c \<noteq> CHR ''_''"
  shows "py_int interp s = Inl ValueError"
proof -
  define t where "t = rev (dropWhile int_isspace (rev (dropWhile int_isspace s)))"
  define body where
    "body = (case t of [] \<Rightarrow> [] | c # cs \<Rightarrow> if c = CHR ''+'' \<or> c = CHR ''-'' then cs else t)"
  have "c \<in> set (dropWhile int_isspace s)" using assms(1,3) by (rule in_dropWhile)
  then have "c \<in> set (rev (dropWhile int_isspace s))" by simp
  then have "c \<in> set (dropWhile int_isspace (rev (dropWhile int_isspace s)))"
    using assms(3) by (rule in_dropWhile)
  then have ct: "c \<in> set t" by (simp add: t_def)
  have "c \<in> set body"
  proof (cases t)
    case Nil
    with ct show ?thesis by simp
  next
    case (Cons a as)
    with ct assms(4,5) show ?thesis by (auto simp: body_def)
  qed
  with assms(2,6) have "\<not> digits_ok False body" using digits_ok_all by blast
  then show ?thesis unfolding py_int_def Let_def t_def[symmetric] body_def[symmetric] by simp
qed

lemma py_int_empty: "py_int interp [] = Inl ValueError"
  by (simp add: py_int_def)

text \<open>
  Claim C2, as amended. Let the map of the summary hold the string \<open>bp\<close> under Blood
  Pressure. If \<open>bp\<close> contains no slash, the threshold check is skipped and the flags of the
  vocabulary scan are returned. If it contains a slash, the part before the first slash is
  given to \<open>int\<close>, nothing catches what \<open>int\<close> raises, and \<open>identify_critical_flags\<close> raises
  ValueError, returning no flags, whenever \<open>int\<close> refuses that part: always when it is
  empty or holds a character that is no digit, white space, sign or underscore.
\<close>

theorem malformed_systolic_raises:
  assumes "vital_signs summary ''Blood Pressure'' = Some bp"
  shows "identify_critical_flags interp self text summary =
           (if CHR ''/'' \<in> set bp then
              (case py_int interp (systolic_of bp) of
                 Inl e \<Rightarrow> Inl e
               | Inr systolic \<Rightarrow>
                   Inr (vocabulary_flags text
                        @ (if systolic > 140 \<or> systolic < 90 then [abnormal_bp_flag] else [])))
            else Inr (vocabulary_flags text))
         \<and> (CHR ''/'' \<in> set bp
              \<and> (systolic_of bp = []
                  \<or> (\<exists>c \<in> set (systolic_of bp). \<not> py_isdigit c \<and> \<not> int_isspace c
                         \<and> c \<noteq> CHR ''+'' \<and> c \<noteq> CHR ''-'' \<and> c \<noteq> CHR ''_''))
             \<longrightarrow> identify_critical_flags interp self text summary = Inl ValueError)"
proof
  show eq: "identify_critical_flags interp self text summary =
           (if CHR ''/'' \<in> set bp then
              (case py_int interp (systolic_of bp) of
                 Inl e \<Rightarrow> Inl e
               | Inr systolic \<Rightarrow>
                   Inr (vocabulary_flags text
                        @ (if systolic > 140 \<or> systolic < 90 then [abnormal_bp_flag] else [])))
            else Inr (vocabulary_flags text))"
    unfolding identify_cases assms by (simp split: sum.splits)
  show "CHR ''/'' \<in> set bp
              \<and> (systolic_of bp = []
                  \<or> (\<exists>c \<in> set (systolic_of bp). \<not> py_isdigit c \<and> \<not> int_isspace c
                         \<and> c \<noteq> CHR ''+'' \<and> c \<noteq> CHR ''-'' \<and> c \<noteq> CHR ''_''))
             \<longrightarrow> identify_critical_flags interp self text summary = Inl ValueError"
  proof
    assume a: "CHR ''/'' \<in> set bp
              \<and> (systolic_of bp = []
                  \<or> (\<exists>c \<in> set (systolic_of bp). \<not> py_isdigit c \<and> \<not> int_isspace c
                         \<and> c \<noteq> CHR ''+'' \<and> c \<noteq> CHR ''-'' \<and> c \<noteq> CHR ''_''))"
    then have "py_int interp (systolic_of bp) = Inl ValueError"
      using py_int_empty py_int_rejects by metis
    with a show "identify_critical_flags interp self text summary = Inl ValueError"
      unfolding eq by simp
  qed
qed

lemma systolic_of_examples:
  "systolic_of ''abc/80'' = ''abc''" "systolic_of ''high'' = ''high''"
  "\<not> py_isdigit CHR ''a''" "\<not> int_isspace CHR ''a''"
  by (simp_all add: systolic_of_def py_isdigit_def int_isspace_def code_def)

theorem malformed_systolic_raises_witness:
  "CHR ''/'' \<in> set ''abc/80'' \<and> CHR ''a'' \<in> set (systolic_of ''abc/80'')
   \<and> \<not> py_isdigit CHR ''a'' \<and> \<not> int_isspace CHR ''a''
   \<and> identify_critical_flags default_interpreter \<lparr>nlp = None, summarizer = None\<rparr> ''critical''
       \<lparr>patient_info = \<lparr>name = [], age = [], gender = [], mrn = [], dob = []\<rparr>,
        chief_complaint = [], diagnosis = [], medications = [],
        vital_signs = [''Blood Pressure'' \<mapsto> ''abc/80''],
        procedures = [], allergies = [], lab_results = [], recommendations = [],
        critical_flags = []\<rparr> = Inl ValueError
   \<and> CHR ''/'' \<notin> set ''high''
   \<and> identify_critical_flags default_interpreter \<lparr>nlp = None, summarizer = None\<rparr> ''critical''
       \<lparr>patient_info = \<lparr>name = [], age = [], gender = [], mrn = [], dob = []\<rparr>,
        chief_complaint = [], diagnosis = [], medications = [],
        vital_signs = [''Blood Pressure'' \<mapsto> ''high''],
        procedures = [], allergies = [], lab_results = [], recommendations = [],
        critical_flags = []\<rparr> = Inr (vocabulary_flags ''critical'')"
proof -
  let ?s1 = "\<lparr>patient_info = \<lparr>name = [], age = [], gender = [], mrn = [], dob = []\<rparr>,
        chief_complaint = [], diagnosis = [], medications = [],
        vital_signs = [''Blood Pressure'' \<mapsto> ''abc/80''],
        procedures = [], allergies = [], lab_results = [], recommendations = [],
        critical_flags = []\<rparr>"
  let ?s2 = "\<lparr>patient_info = \<lparr>name = [], age = [], gender = [], mrn = [], dob = []\<rparr>,
        chief_complaint = [], diagnosis = [], medications = [],
        vital_signs = [''Blood Pressure'' \<mapsto> ''high''],
        procedures = [], allergies = [], lab_results = [], recommendations = [],
        critical_flags = []\<rparr>"
  have h: "CHR ''/'' \<in> set ''abc/80''" "CHR ''a'' \<in> set (systolic_of ''abc/80'')"
    "\<not> py_isdigit CHR ''a''" "\<not> int_isspace CHR ''a''" "CHR ''/'' \<notin> set ''high''"
    by (simp_all add: systolic_of_examples)
  have v1: "vital_signs ?s1 ''Blood Pressure'' = Some ''abc/80''" by simp
  have v2: "vital_signs ?s2 ''Blood Pressure'' = Some ''high''" by simp
  from malformed_systolic_raises[OF v1, of default_interpreter "\<lparr>nlp = None, summarizer = None\<rparr>" "''critical''"]
  have "CHR ''/'' \<in> set ''abc/80''
              \<and> (systolic_of ''abc/80'' = []
                  \<or> (\<exists>c \<in> set (systolic_of ''abc/80''). \<not> py_isdigit c \<and> \<not> int_isspace c
                         \<and> c \<noteq> CHR ''+'' \<and> c \<noteq> CHR ''-'' \<and> c \<noteq> CHR ''_''))
             \<longrightarrow> identify_critical_flags default_interpreter \<lparr>nlp = None, summarizer = None\<rparr> ''critical'' ?s1 = Inl ValueError"
    by (rule conjunct2)
  moreover have "\<exists>c \<in> set (systolic_of ''abc/80''). \<not> py_isdigit c \<and> \<not> int_isspace c
                         \<and> c \<noteq> CHR ''+'' \<and> c \<noteq> CHR ''-'' \<and> c \<noteq> CHR ''_''"
    using h(2,3,4) by (intro bexI[of _ "CHR ''a''"]) simp_all
  ultimately have r1: "identify_critical_flags default_interpreter \<lparr>nlp = None, summarizer = None\<rparr> ''critical'' ?s1 = Inl ValueError"
    using h(1) by blast
  from malformed_systolic_raises[OF v2, of default_interpreter "\<lparr>nlp = None, summarizer = None\<rparr>" "''critical''"] h(5)
  have r2: "identify_critical_flags default_interpreter \<lparr>nlp = None, summarizer = None\<rparr> ''critical'' ?s2
      = Inr (vocabulary_flags ''critical'')"
    by simp
  from h r1 r2 show ?thesis by blast
qed

text \<open>
  The claim as stated, no crash and the flags of the vocabulary scan returned, fails on the
  blood pressure \<open>abc/80\<close>: the text holds the term \<open>critical\<close>, and the call raises
  ValueError.
\<close>

theorem malformed_systolic_counterexample:
  "identify_critical_flags default_interpreter \<lparr>nlp = None, summarizer = None\<rparr>
       ''patient in critical condition''
       \<lparr>patient_info = \<lparr>name = [], age = [], gender = [], mrn = [], dob = []\<rparr>,
        chief_complaint = [], diagnosis = [], medications = [],
        vital_signs = [''Blood Pressure'' \<mapsto> ''abc/80''],
        procedures = [], allergies = [], lab_results = [], recommendations = [],
        critical_flags = []\<rparr> = Inl ValueError"
  by (simp add: identify_cases systolic_of_examples py_int_rejects[of "CHR ''a''"])

section \<open>The vocabulary scan\<close>

lemma starts_with_iff: "starts_with sub s \<longleftrightarrow> (\<exists>b. s = sub @ b)"
  by (induction sub s rule: starts_with.induct) auto

lemma py_in_iff: "py_in sub s \<longleftrightarrow> (\<exists>a b. s = a @ sub @ b)"
proof (induction s)
  case Nil
  then show ?case by auto
next
  case (Cons c cs)
  show ?case
  proof
    assume "py_in sub (c # cs)"
    then consider "starts_with sub (c # cs)" | "py_in sub cs" by auto
    then show "\<exists>a b. c # cs = a @ sub @ b"
    proof cases
      case 1
      then obtain b where "c # cs = sub @ b" unfolding starts_with_iff by blast
      then have "c # cs = [] @ sub @ b" by simp
      then show ?thesis by blast
    next
      case 2
      then obtain a b where "cs = a @ sub @ b" unfolding Cons.IH by blast
      then have "c # cs = (c # a) @ sub @ b" by simp
      then show ?thesis by blast
    qed
  next
    assume "\<exists>a b. c # cs = a @ sub @ b"
    then obtain a b where ab: "c # cs = a @ sub @ b" by blast
    show "py_in sub (c # cs)"
    proof (cases a)
      case Nil
      with ab have "starts_with sub (c # cs)" unfolding starts_with_iff by auto
      then show ?thesis by simp
    next
      case (Cons x xs)
      with ab have "cs = xs @ sub @ b" by simp
      then have "py_in sub cs" unfolding Cons.IH by blast
      then show ?thesis by simp
    qed
  qed
qed

lemma occurs_in_some_case:
  "py_in t (py_lower text) \<longleftrightarrow> (\<exists>a u b. text = a @ u @ b \<and> py_lower u = t)"
proof
  assume "py_in t (py_lower text)"
  then obtain a' b' where "map lower_char text = a' @ t @ b'"
    unfolding py_in_iff py_lower_def by blast
  then obtain a r where r: "text = a @ r" "a' = map lower_char a" "t @ b' = map lower_char r"
    unfolding map_eq_append_conv by blast
  from r(3) have "map lower_char r = t @ b'" by simp
  then obtain u b where "r = u @ b" "t = map lower_char u" "b' = map lower_char b"
    unfolding map_eq_append_conv by blast
  with r(1) show "\<exists>a u b. text = a @ u @ b \<and> py_lower u = t"
    unfolding py_lower_def by blast
next
  assume "\<exists>a u b. text = a @ u @ b \<and> py_lower u = t"
  then obtain a u b where "text = a @ u @ b" "py_lower u = t" by blast
  then have "py_lower text = py_lower a @ t @ py_lower b" by (simp add: py_lower_def)
  then show "py_in t (py_lower text)" unfolding py_in_iff by blast
qed

lemma count_list_map_filter:
  assumes "distinct (map f xs)" "t \<in> set xs"
  shows "count_list (map f (filter P xs)) (f t) = (if P t then 1 else 0)"
  using assms
proof (induction xs)
  case Nil
  then show ?case by simp
next
  case (Cons x xs)
  show ?case
  proof (cases "t = x")
    case True
    from Cons.prems(1) have "f x \<notin> set (map f (filter P xs))" by auto
    then have "count_list (map f (filter P xs)) (f x) = 0" by (simp add: count_list_0_iff)
    with True show ?thesis by simp
  next
    case False
    with Cons.prems have t: "t \<in> set xs" and d: "distinct (map f xs)" by auto
    from Cons.prems(1) t have "f x \<noteq> f t" by auto
    with Cons.IH[OF d t] show ?thesis by simp
  qed
qed

lemma mentioned_flags_distinct:
  "distinct (map mentioned_flag critical_terms)"
  by code_simp

lemma abnormal_bp_flag_not_mentioned:
  "abnormal_bp_flag \<notin> set (map mentioned_flag critical_terms)"
  by code_simp

lemma count_vocabulary_flags:
  assumes "t \<in> set critical_terms"
  shows "count_list (vocabulary_flags text) (mentioned_flag t)
           = (if (\<exists>a u b. text = a @ u @ b \<and> py_lower u = t) then 1 else 0)"
  unfolding vocabulary_flags_def occurs_in_some_case[symmetric]
  using count_list_map_filter[OF mentioned_flags_distinct assms] by simp

lemma count_abnormal_in_mentioned:
  assumes "t \<in> set critical_terms"
  shows "count_list (fs @ [abnormal_bp_flag]) (mentioned_flag t) = count_list fs (mentioned_flag t)"
proof -
  from assms abnormal_bp_flag_not_mentioned have "abnormal_bp_flag \<noteq> mentioned_flag t" by auto
  then show ?thesis by simp
qed

lemma py_int_error: "py_int interp s = Inl e \<Longrightarrow> e = ValueError"
  by (auto simp: py_int_def Let_def split: if_splits)

lemma abnormal_bp_flag_other:
  "\<forall>t \<in> set critical_terms. abnormal_bp_flag \<noteq> mentioned_flag t"
  using abnormal_bp_flag_not_mentioned by auto

lemma vocabulary_counts:
  "\<forall>t \<in> set critical_terms.
     count_list (vocabulary_flags text) (mentioned_flag t)
       = (if (\<exists>a u b. text = a @ u @ b \<and> py_lower u = t) then 1 else 0)"
  "\<forall>t \<in> set critical_terms.
     count_list (vocabulary_flags text @ [abnormal_bp_flag]) (mentioned_flag t)
       = (if (\<exists>a u b. text = a @ u @ b \<and> py_lower u = t) then 1 else 0)"
  using count_vocabulary_flags count_abnormal_in_mentioned by simp_all

text \<open>
  Claim C5, as amended. When \<open>identify_critical_flags\<close> returns, each term of the critical
  vocabulary that occurs in the text in some letter casing has exactly one flag in the list,
  however often it occurs, and a term that does not occur has none; the flag of a term is
  the warning sign of the source, the term in title case, and the word \<open>mentioned\<close> in lower
  case, so the flags of \<open>chest pain\<close> and \<open>acute\<close> end in \<open>Chest Pain mentioned\<close> and
  \<open>Acute mentioned\<close>. It fails to return only by the ValueError of \<open>int\<close> on a blood
  pressure of the summary that contains a slash.
\<close>

theorem vocabulary_flags_once_per_term:
  "(case identify_critical_flags interp self text summary of
      Inl e \<Rightarrow> e = ValueError
                \<and> (\<exists>bp. vital_signs summary ''Blood Pressure'' = Some bp \<and> CHR ''/'' \<in> set bp
                         \<and> py_int interp (systolic_of bp) = Inl ValueError)
    | Inr flags \<Rightarrow>
        (\<forall>t \<in> set critical_terms.
            count_list flags (warning_sign @ map code (py_title t) @ map code '' mentioned'')
              = (if (\<exists>a u b. text = a @ u @ b \<and> py_lower u = t) then 1 else 0)))
   \<and> py_title ''chest pain'' = ''Chest Pain'' \<and> py_title ''acute'' = ''Acute''"
proof
  show "case identify_critical_flags interp self text summary of
      Inl e \<Rightarrow> e = ValueError
                \<and> (\<exists>bp. vital_signs summary ''Blood Pressure'' = Some bp \<and> CHR ''/'' \<in> set bp
                         \<and> py_int interp (systolic_of bp) = Inl ValueError)
    | Inr flags \<Rightarrow>
        (\<forall>t \<in> set critical_terms.
            count_list flags (warning_sign @ map code (py_title t) @ map code '' mentioned'')
              = (if (\<exists>a u b. text = a @ u @ b \<and> py_lower u = t) then 1 else 0))"
    unfolding mentioned_flag_def[symmetric]
  proof (cases "vital_signs summary ''Blood Pressure''")
    case None
    then show "case identify_critical_flags interp self text summary of
      Inl e \<Rightarrow> e = ValueError
                \<and> (\<exists>bp. vital_signs summary ''Blood Pressure'' = Some bp \<and> CHR ''/'' \<in> set bp
                         \<and> py_int interp (systolic_of bp) = Inl ValueError)
    | Inr flags \<Rightarrow>
        (\<forall>t \<in> set critical_terms.
            count_list flags (mentioned_flag t)
              = (if (\<exists>a u b. text = a @ u @ b \<and> py_lower u = t) then 1 else 0))"
      unfolding identify_cases by (simp add: vocabulary_counts)
  next
    case (Some bp)
    show "case identify_critical_flags interp self text summary of
      Inl e \<Rightarrow> e = ValueError
                \<and> (\<exists>bp. vital_signs summary ''Blood Pressure'' = Some bp \<and> CHR ''/'' \<in> set bp
                         \<and> py_int interp (systolic_of bp) = Inl ValueError)
    | Inr flags \<Rightarrow>
        (\<forall>t \<in> set critical_terms.
            count_list flags (mentioned_flag t)
              = (if (\<exists>a u b. text = a @ u @ b \<and> py_lower u = t) then 1 else 0))"
    proof (cases "CHR ''/'' \<in> set bp")
      case False
      then show ?thesis unfolding identify_cases Some by (simp add: vocabulary_counts)
    next
      case True
      show ?thesis
      proof (cases "py_int interp (systolic_of bp)")
        case (Inl e)
        from py_int_error[OF this] have e: "e = ValueError" .
        from Inl True show ?thesis unfolding identify_cases Some e by simp
      next
        case (Inr v)
        with True show ?thesis unfolding identify_cases Some
          by (simp add: vocabulary_counts abnormal_bp_flag_other)
      qed
    qed
  qed
  show "py_title ''chest pain'' = ''Chest Pain'' \<and> py_title ''acute'' = ''Acute''"
    by code_simp
qed

lemma case_varied_flags:
  "identify_critical_flags default_interpreter \<lparr>nlp = None, summarizer = None\<rparr> ''Chest Pain, ACUTE''
       \<lparr>patient_info = \<lparr>name = [], age = [], gender = [], mrn = [], dob = []\<rparr>,
        chief_complaint = [], diagnosis = [], medications = [], vital_signs = Map.empty,
        procedures = [], allergies = [], lab_results = [], recommendations = [],
        critical_flags = []\<rparr>
     = Inr [warning_sign @ map code ''Acute mentioned'', warning_sign @ map code ''Chest Pain mentioned'']"
  by code_simp

theorem vocabulary_flags_once_per_term_witness:
  "''chest pain'' \<in> set critical_terms
   \<and> ''Chest Pain, ACUTE'' = [] @ ''Chest Pain'' @ '', ACUTE'' \<and> py_lower ''Chest Pain'' = ''chest pain''
   \<and> count_list [warning_sign @ map code ''Acute mentioned'', warning_sign @ map code ''Chest Pain mentioned'']
        (warning_sign @ map code (py_title ''chest pain'') @ map code '' mentioned'') = 1"
proof -
  have h: "''chest pain'' \<in> set critical_terms"
    "''Chest Pain, ACUTE'' = [] @ ''Chest Pain'' @ '', ACUTE''" "py_lower ''Chest Pain'' = ''chest pain''"
    by code_simp+
  from h(2,3) have ex: "\<exists>a u b. ''Chest Pain, ACUTE'' = a @ u @ b \<and> py_lower u = ''chest pain''"
    by blast
  have "(case identify_critical_flags default_interpreter \<lparr>nlp = None, summarizer = None\<rparr>
            ''Chest Pain, ACUTE''
            \<lparr>patient_info = \<lparr>name = [], age = [], gender = [], mrn = [], dob = []\<rparr>,
             chief_complaint = [], diagnosis = [], medications = [], vital_signs = Map.empty,
             procedures = [], allergies = [], lab_results = [], recommendations = [],
             critical_flags = []\<rparr> of
      Inl e \<Rightarrow> e = ValueError
                \<and> (\<exists>bp. vital_signs \<lparr>patient_info = \<lparr>name = [], age = [], gender = [], mrn = [], dob = []\<rparr>,
             chief_complaint = [], diagnosis = [], medications = [], vital_signs = Map.empty,
             procedures = [], allergies = [], lab_results = [], recommendations = [],
             critical_flags = []\<rparr> ''Blood Pressure'' = Some bp \<and> CHR ''/'' \<in> set bp
                         \<and> py_int default_interpreter (systolic_of bp) = Inl ValueError)
    | Inr flags \<Rightarrow>
        (\<forall>t \<in> set critical_terms.
            count_list flags (warning_sign @ map code (py_title t) @ map code '' mentioned'')
              = (if (\<exists>a u b. ''Chest Pain, ACUTE'' = a @ u @ b \<and> py_lower u = t) then 1 else 0)))
   \<and> py_title ''chest pain'' = ''Chest Pain'' \<and> py_title ''acute'' = ''Acute''"
    by (rule vocabulary_flags_once_per_term)
  then have "\<forall>t \<in> set critical_terms.
     count_list [warning_sign @ map code ''Acute mentioned'', warning_sign @ map code ''Chest Pain mentioned'']
        (warning_sign @ map code (py_title t) @ map code '' mentioned'')
       = (if (\<exists>a u b. ''Chest Pain, ACUTE'' = a @ u @ b \<and> py_lower u = t) then 1 else 0)"
    unfolding case_varied_flags by simp
  with h(1) ex have "count_list [warning_sign @ map code ''Acute mentioned'', warning_sign @ map code ''Chest Pain mentioned'']
        (warning_sign @ map code (py_title ''chest pain'') @ map code '' mentioned'') = 1"
    by (metis (no_types, lifting))
  with h show ?thesis by blast
qed

text \<open>
  The claim as stated, the flags \<open>Chest Pain Mentioned\<close> and \<open>Acute Mentioned\<close>, fails on
  the text \<open>Chest Pain, ACUTE\<close>: the two flags returned are the warning sign followed by
  \<open>Acute mentioned\<close> and by \<open>Chest Pain mentioned\<close>.
\<close>

theorem flag_text_counterexample:
  "identify_critical_flags default_interpreter \<lparr>nlp = None, summarizer = None\<rparr> ''Chest Pain, ACUTE''
       \<lparr>patient_info = \<lparr>name = [], age = [], gender = [], mrn = [], dob = []\<rparr>,
        chief_complaint = [], diagnosis = [], medications = [], vital_signs = Map.empty,
        procedures = [], allergies = [], lab_results = [], recommendations = [],
        critical_flags = []\<rparr>
     = Inr [[0xE2, 0x161, 0xA0, 0xEF, 0xB8, 0x20] @ map code ''Acute mentioned'',
            [0xE2, 0x161, 0xA0, 0xEF, 0xB8, 0x20] @ map code ''Chest Pain mentioned'']
   \<and> map code ''Chest Pain Mentioned''
        \<notin> set [[0xE2, 0x161, 0xA0, 0xEF, 0xB8, 0x20] @ map code ''Acute mentioned'',
                 [0xE2, 0x161, 0xA0, 0xEF, 0xB8, 0x20] @ map code ''Chest Pain mentioned'']
   \<and> map code ''Acute Mentioned''
        \<notin> set [[0xE2, 0x161, 0xA0, 0xEF, 0xB8, 0x20] @ map code ''Acute mentioned'',
                 [0xE2, 0x161, 0xA0, 0xEF, 0xB8, 0x20] @ map code ''Chest Pain mentioned'']"
  by code_simp

end
